theory Spec2Isabelle
  imports Main "HOL-Library.AList"
begin

section \<open>Values, rows, errors\<close>

text \<open>
  The values a row holds. The source is dynamically typed; the model covers \<open>None\<close>,
  \<open>bool\<close>, \<open>int\<close> and \<open>str\<close>. Python's \<open>==\<close> identifies \<open>True\<close> with \<open>1\<close> and
  \<open>False\<close> with \<open>0\<close> (and hashes them alike), so dictionary lookup and \<open>!=\<close> go through
  \<open>py_eq\<close>, while \<open>type(a) != type(b)\<close> goes through \<open>py_type\<close>.
\<close>

datatype val = VNone | VBool bool | VInt int | VStr string

datatype ty = NoneType | BoolT | IntT | StrT

fun py_type :: "val \<Rightarrow> ty" where
  "py_type VNone = NoneType"
| "py_type (VBool b) = BoolT"
| "py_type (VInt n) = IntT"
| "py_type (VStr s) = StrT"

fun py_eq :: "val \<Rightarrow> val \<Rightarrow> bool" where
  "py_eq VNone VNone = True"
| "py_eq (VBool a) (VBool b) = (a = b)"
| "py_eq (VInt a) (VInt b) = (a = b)"
| "py_eq (VStr a) (VStr b) = (a = b)"
| "py_eq (VBool a) (VInt b) = (b = (if a then 1 else 0))"
| "py_eq (VInt a) (VBool b) = (a = (if b then 1 else 0))"
| "py_eq _ _ = False"

text \<open>Tuple equality: same length, components equal under \<open>==\<close>.\<close>

fun tup_eq :: "val list \<Rightarrow> val list \<Rightarrow> bool" where
  "tup_eq [] [] = True"
| "tup_eq (x # xs) (y # ys) = (py_eq x y \<and> tup_eq xs ys)"
| "tup_eq _ _ = False"

text \<open>\<open>None in tup\<close>.\<close>

fun none_in :: "val list \<Rightarrow> bool" where
  "none_in [] = False"
| "none_in (v # vs) = (py_eq v VNone \<or> none_in vs)"

text \<open>
  What the invocation can raise. \<open>UniqueViolation\<close> is the one exception the source
  catches; \<open>Raised\<close> stands for any other exception of the store, of a default function
  or of the hook.
\<close>

datatype error =
    KeyError string
  | ValueError string
  | IndexError
  | TypeError string val val
  | UniqueViolation
  | Raised string

text \<open>
  A row is a Python \<open>dict\<close> from field names to values: an association list with
  distinct keys in insertion order. \<open>row[f]\<close> raises \<open>KeyError\<close> on a missing field,
  \<open>row.get(f)\<close> gives \<open>None\<close>, \<open>row[f] = v\<close> is \<open>AList.update f v row\<close>.
\<close>

type_synonym row = "(string \<times> val) list"

definition getitem :: "row \<Rightarrow> string \<Rightarrow> error + val" where
  "getitem dct x = (case map_of dct x of None \<Rightarrow> Inl (KeyError x) | Some v \<Rightarrow> Inr v)"

definition get_or_none :: "row \<Rightarrow> string \<Rightarrow> val" where
  "get_or_none dct x = (case map_of dct x of None \<Rightarrow> VNone | Some v \<Rightarrow> v)"

text \<open>\<open>to_tup = lambda dct, k: tuple([dct[x] for x in k])\<close>\<close>

fun to_tup :: "row \<Rightarrow> string list \<Rightarrow> error + val list" where
  "to_tup dct [] = Inr []"
| "to_tup dct (x # k) =
     (case getitem dct x of
        Inl e \<Rightarrow> Inl e
      | Inr v \<Rightarrow> (case to_tup dct k of Inl e \<Rightarrow> Inl e | Inr vs \<Rightarrow> Inr (v # vs)))"

section \<open>The store and the options\<close>

text \<open>
  The \<open>db\<close> argument: an object with methods \<open>get\<close>, \<open>get_fields\<close>, \<open>sql\<close> and
  \<open>insert\<close>. Its state is abstract (\<open>'s\<close>); a mutating call returns the new state and
  the exception it raised, if any.
\<close>

record 's db =
  db_get :: "'s \<Rightarrow> string \<Rightarrow> error + row list"
  db_get_fields :: "'s \<Rightarrow> string \<Rightarrow> error + string list"
  db_sql :: "'s \<Rightarrow> string \<Rightarrow> val list \<Rightarrow> 's \<times> error option"
  db_insert :: "'s \<Rightarrow> row \<Rightarrow> string \<Rightarrow> 's \<times> error option"

text \<open>
  A default is \<open>[func, *args]\<close>; the hook is \<open>[func, *args]\<close> too. The functions are
  the caller's: a default function returns a value or raises, the hook may raise and may
  act on the store. An absent or empty option is the empty list or \<open>None\<close>.
\<close>

type_synonym dflt = "(val list \<Rightarrow> error + val) \<times> val list"

type_synonym 's hook = "('s \<Rightarrow> val list \<Rightarrow> 's \<times> error option) \<times> val list"

type_synonym keymaps = "(string \<times> (val \<times> val list) list) list"

record 's kwargs =
  kw_where :: "string option"
  kw_delete :: bool
  kw_ignore :: "string list"
  kw_default :: "(string \<times> dflt) list"
  kw_noinsert :: bool
  kw_get_unmatched :: bool
  kw_overwrite :: bool
  kw_ignorenull :: bool
  kw_before_insert :: "'s hook option"
  kw_nonullkeys :: bool
  kw_keymaps :: keymaps
  kw_dryrun :: bool

text \<open>\<open>kwargs.get("where")\<close> as a condition: \<open>None\<close> and the empty string are false.\<close>

definition has_where :: "'s kwargs \<Rightarrow> bool" where
  "has_where kw = (case kw_where kw of None \<Rightarrow> False | Some w \<Rightarrow> w \<noteq> [])"

definition where_str :: "'s kwargs \<Rightarrow> string" where
  "where_str kw = (case kw_where kw of None \<Rightarrow> [] | Some w \<Rightarrow> w)"

section \<open>parse_keys\<close>

datatype keyspec = Scalar string | Tuple "string list"

datatype keys_arg = Single keyspec | KeyList "keyspec list"

fun as_tuple :: "keyspec \<Rightarrow> string list" where
  "as_tuple (Scalar f) = [f]"
| "as_tuple (Tuple fs) = fs"

fun parse_keys :: "keys_arg \<Rightarrow> string list list" where
  "parse_keys (Single k) = [as_tuple k]"
| "parse_keys (KeyList ks) = map as_tuple ks"

section \<open>get_current: the snapshot and its index\<close>

text \<open>
  \<open>current["tups"]\<close>: a dict from key-tuples to lists of row positions. Keys are found
  by \<open>==\<close> on tuples. \<open>dict_append d tup i\<close> is
  \<open>if tup not in d: d[tup] = []\<close> followed by \<open>d[tup].append(i)\<close>.
\<close>

type_synonym dict = "(val list \<times> nat list) list"

fun dict_get :: "dict \<Rightarrow> val list \<Rightarrow> nat list option" where
  "dict_get [] tup = None"
| "dict_get ((k, ps) # d) tup = (if tup_eq k tup then Some ps else dict_get d tup)"

fun dict_append :: "dict \<Rightarrow> val list \<Rightarrow> nat \<Rightarrow> dict" where
  "dict_append [] tup i = [(tup, [i])]"
| "dict_append ((k, ps) # d) tup i =
     (if tup_eq k tup then (k, ps @ [i]) # d else (k, ps) # dict_append d tup i)"

text \<open>\<open>key.index(field)\<close>: the first position, \<open>ValueError\<close> when there is none.\<close>

fun index_of :: "string list \<Rightarrow> string \<Rightarrow> nat option" where
  "index_of [] f = None"
| "index_of (x # xs) f =
     (if x = f then Some 0 else (case index_of xs f of None \<Rightarrow> None | Some n \<Rightarrow> Some (Suc n)))"

text \<open>
  The loop \<open>for k in kwargs["keymaps"][field]\<close> over one field's alias table, appending
  to \<open>tups\<close>. The position is looked up inside the loop body, as in the source.
\<close>

fun alias_k ::
  "string list \<Rightarrow> val list \<Rightarrow> string \<Rightarrow> (val \<times> val list) list \<Rightarrow> val list list
     \<Rightarrow> error + val list list" where
  "alias_k key tup field [] tups = Inr tups"
| "alias_k key tup field ((k, vs) # m) tups =
     (case index_of key field of
        None \<Rightarrow> Inl (ValueError field)
      | Some idx \<Rightarrow>
          alias_k key tup field m
            (if py_eq (tup ! idx) k then tups @ map (\<lambda>v. tup[idx := v]) vs else tups))"

text \<open>The loop \<open>for field in kwargs.get("keymaps", {})\<close>.\<close>

fun alias_fields ::
  "string list \<Rightarrow> val list \<Rightarrow> keymaps \<Rightarrow> val list list \<Rightarrow> error + val list list" where
  "alias_fields key tup [] tups = Inr tups"
| "alias_fields key tup ((field, m) # kms) tups =
     (case alias_k key tup field m tups of
        Inl e \<Rightarrow> Inl e
      | Inr tups' \<Rightarrow> alias_fields key tup kms tups')"

text \<open>The loop \<open>for tup in tups\<close> that registers position \<open>i\<close>.\<close>

fun add_tups :: "val list list \<Rightarrow> nat \<Rightarrow> dict \<Rightarrow> dict" where
  "add_tups [] i d = d"
| "add_tups (t # ts) i d = add_tups ts i (dict_append d t i)"

text \<open>The loop \<open>for key in keys\<close> for one row at position \<open>i\<close>.\<close>

fun index_keys :: "row \<Rightarrow> nat \<Rightarrow> string list list \<Rightarrow> keymaps \<Rightarrow> dict \<Rightarrow> error + dict" where
  "index_keys r i [] kms d = Inr d"
| "index_keys r i (key # keys) kms d =
     (case to_tup r key of
        Inl e \<Rightarrow> Inl e
      | Inr tup \<Rightarrow>
          (case alias_fields key tup kms [tup] of
             Inl e \<Rightarrow> Inl e
           | Inr tups \<Rightarrow> index_keys r i keys kms (add_tups tups i d)))"

text \<open>The loop \<open>for i, row in enumerate(rows)\<close>.\<close>

fun index_rows :: "row list \<Rightarrow> nat \<Rightarrow> string list list \<Rightarrow> keymaps \<Rightarrow> dict \<Rightarrow> error + dict" where
  "index_rows [] i keys kms d = Inr d"
| "index_rows (r # rs) i keys kms d =
     (case index_keys r i keys kms d of
        Inl e \<Rightarrow> Inl e
      | Inr d' \<Rightarrow> index_rows rs (Suc i) keys kms d')"

record current =
  cur_rows :: "row list"
  cur_tups :: dict

definition select_query :: "string \<Rightarrow> 's kwargs \<Rightarrow> string" where
  "select_query table kw =
     ''SELECT * FROM '' @ table @ '' '' @ (if has_where kw then '' WHERE '' @ where_str kw else [])"

definition get_current ::
  "'s db \<Rightarrow> 's \<Rightarrow> string \<Rightarrow> string list list \<Rightarrow> 's kwargs \<Rightarrow> error + current" where
  "get_current db s table keys kw =
     (case db_get db s (select_query table kw) of
        Inl e \<Rightarrow> Inl e
      | Inr rs \<Rightarrow>
          (case index_rows rs 0 keys (kw_keymaps kw) [] of
             Inl e \<Rightarrow> Inl e
           | Inr d \<Rightarrow> Inr \<lparr>cur_rows = rs, cur_tups = d\<rparr>))"

section \<open>get_to_update: the match records\<close>

record match =
  m_key :: "string list"
  m_current :: nat
  m_upsert :: nat

text \<open>
  The loop \<open>for key in keys\<close> for the desired row \<open>u\<close> at position \<open>j\<close>. A tuple that
  is in the index is skipped when \<open>nonullkeys\<close> is set and it holds a \<open>None\<close>.
\<close>

fun match_keys :: "dict \<Rightarrow> bool \<Rightarrow> row \<Rightarrow> nat \<Rightarrow> string list list \<Rightarrow> error + match list" where
  "match_keys d nn u j [] = Inr []"
| "match_keys d nn u j (key # keys) =
     (case to_tup u key of
        Inl e \<Rightarrow> Inl e
      | Inr tup \<Rightarrow>
          (case match_keys d nn u j keys of
             Inl e \<Rightarrow> Inl e
           | Inr ms \<Rightarrow>
               Inr ((case dict_get d tup of
                       None \<Rightarrow> []
                     | Some ps \<Rightarrow>
                         if nn \<and> none_in tup then []
                         else map (\<lambda>i. \<lparr>m_key = key, m_current = i, m_upsert = j\<rparr>) ps) @ ms)))"

text \<open>The loop \<open>for j, upsert in enumerate(upserts)\<close>.\<close>

fun match_rows :: "dict \<Rightarrow> bool \<Rightarrow> row list \<Rightarrow> nat \<Rightarrow> string list list \<Rightarrow> error + match list" where
  "match_rows d nn [] j keys = Inr []"
| "match_rows d nn (u # us) j keys =
     (case match_keys d nn u j keys of
        Inl e \<Rightarrow> Inl e
      | Inr ms \<Rightarrow>
          (case match_rows d nn us (Suc j) keys of
             Inl e \<Rightarrow> Inl e
           | Inr ms' \<Rightarrow> Inr (ms @ ms')))"

definition get_to_update ::
  "current \<Rightarrow> row list \<Rightarrow> string list list \<Rightarrow> 's kwargs \<Rightarrow> error + match list" where
  "get_to_update cur upserts keys kw = match_rows (cur_tups cur) (kw_nonullkeys kw) upserts 0 keys"

section \<open>get_default\<close>

text \<open>
  An argument that is a string starting with \<open>*\<close> is a back-reference \<open>row[arg[1:]]\<close>;
  any other argument is passed as it is.
\<close>

fun resolve_arg :: "row \<Rightarrow> val \<Rightarrow> error + val" where
  "resolve_arg r (VStr s) =
     (case s of
        [] \<Rightarrow> Inr (VStr s)
      | c # name \<Rightarrow> if c = CHR ''*'' then getitem r name else Inr (VStr s))"
| "resolve_arg r v = Inr v"

fun resolve_args :: "row \<Rightarrow> val list \<Rightarrow> error + val list" where
  "resolve_args r [] = Inr []"
| "resolve_args r (a # as) =
     (case resolve_arg r a of
        Inl e \<Rightarrow> Inl e
      | Inr v \<Rightarrow> (case resolve_args r as of Inl e \<Rightarrow> Inl e | Inr vs \<Rightarrow> Inr (v # vs)))"

text \<open>
  \<open>get_default(default, row, field)\<close>: the function \<open>default[field][0]\<close> applied to the
  resolved arguments \<open>default[field][1:]\<close>.
\<close>

definition get_default :: "(string \<times> dflt) list \<Rightarrow> row \<Rightarrow> string \<Rightarrow> error + val" where
  "get_default dflts r field =
     (case map_of dflts field of
        None \<Rightarrow> Inl (KeyError field)
      | Some d \<Rightarrow>
          (case resolve_args r (snd d) of Inl e \<Rightarrow> Inl e | Inr args \<Rightarrow> fst d args))"

text \<open>
  \<open>for field in default: row[field] = get_default(default, row, field)\<close>. The row is
  changed in place, so it is returned also when a default raises.
\<close>

fun set_defaults :: "(string \<times> dflt) list \<Rightarrow> string list \<Rightarrow> row \<Rightarrow> row \<times> error option" where
  "set_defaults dflts [] r = (r, None)"
| "set_defaults dflts (field # fs) r =
     (case get_default dflts r field of
        Inl e \<Rightarrow> (r, Some e)
      | Inr v \<Rightarrow> set_defaults dflts fs (AList.update field v r))"

text \<open>The block \<open>default = kwargs.get("default", {}); if default: ...\<close> on a row.\<close>

definition apply_defaults :: "'s kwargs \<Rightarrow> row \<Rightarrow> row \<times> error option" where
  "apply_defaults kw r =
     (let dflts = kw_default kw in
      if dflts \<noteq> [] then set_defaults dflts (map fst dflts) r else (r, None))"

section \<open>The state of an invocation\<close>

text \<open>
  What the invocation prints and which calls it makes on the store and the hook, in order.
\<close>

datatype event =
    Print_stmt string "val list"
  | Sql string "val list"
  | Print_insert row
  | Insert row string
  | Print_exc error
  | Hook "val list"

text \<open>
  The mutable objects of an invocation: the store, the rows of the snapshot
  (\<open>current["rows"]\<close>), the caller's desired rows, and the output so far.
\<close>

record 's state =
  st_store :: 's
  st_rows :: "row list"
  st_upserts :: "row list"
  st_out :: "event list"

definition emit :: "event list \<Rightarrow> 's state \<Rightarrow> 's state" where
  "emit evs st = st\<lparr>st_out := st_out st @ evs\<rparr>"

fun join :: "string \<Rightarrow> string list \<Rightarrow> string" where
  "join sep [] = []"
| "join sep [x] = x"
| "join sep (x # y # ys) = x @ sep @ join sep (y # ys)"

text \<open>
  \<open>where.append(f"{field} { 'IS' if val is None else '=' } %s")\<close> and
  \<open>args.append(val)\<close> for every field of a key, with the values of the row \<open>r\<close>.
\<close>

definition pred :: "string \<Rightarrow> val \<Rightarrow> string" where
  "pred field v = field @ '' '' @ (if v = VNone then ''IS'' else ''='') @ '' %s''"

fun key_preds :: "row \<Rightarrow> string list \<Rightarrow> error + (string list \<times> val list)" where
  "key_preds r [] = Inr ([], [])"
| "key_preds r (field # fs) =
     (case getitem r field of
        Inl e \<Rightarrow> Inl e
      | Inr v \<Rightarrow>
          (case key_preds r fs of
             Inl e \<Rightarrow> Inl e
           | Inr (ws, as) \<Rightarrow> Inr (pred field v # ws, v # as)))"

section \<open>do_updates\<close>

text \<open>The loop \<open>for field in fields\<close> that collects \<open>sets\<close> and \<open>args\<close>.\<close>

fun diff_fields ::
  "'s kwargs \<Rightarrow> row \<Rightarrow> row \<Rightarrow> string list \<Rightarrow> string list \<times> val list
     \<Rightarrow> error + (string list \<times> val list)" where
  "diff_fields kw cur ups [] acc = Inr acc"
| "diff_fields kw cur ups (field # flds) acc =
     (case getitem cur field of
        Inl e \<Rightarrow> Inl e
      | Inr cur_val \<Rightarrow>
          if \<not> kw_overwrite kw \<and> map_of ups field = None then diff_fields kw cur ups flds acc
          else
            let new_val = get_or_none ups field in
            if kw_ignorenull kw \<and> new_val = VNone then diff_fields kw cur ups flds acc
            else if cur_val \<noteq> VNone \<and> new_val \<noteq> VNone \<and> py_type cur_val \<noteq> py_type new_val
              then Inl (TypeError field new_val cur_val)
            else if \<not> py_eq cur_val new_val
              then diff_fields kw cur ups flds (fst acc @ [field @ '' = %s''], snd acc @ [new_val])
            else diff_fields kw cur ups flds acc)"

definition update_query :: "string \<Rightarrow> string list \<Rightarrow> string list \<Rightarrow> string" where
  "update_query table sets wheres =
     ''UPDATE '' @ table @ '' SET '' @ join '', '' sets @ '' WHERE '' @ join '' AND '' wheres"

text \<open>
  The \<open>try\<close> block: print in dry-run, else call \<open>db.sql\<close>; a \<open>UniqueViolation\<close> is
  printed and swallowed, any other exception leaves the block.
\<close>

definition run_stmt ::
  "'s db \<Rightarrow> 's kwargs \<Rightarrow> string \<Rightarrow> val list \<Rightarrow> 's state \<Rightarrow> 's state \<times> error option" where
  "run_stmt db kw query args st =
     (if kw_dryrun kw then (emit [Print_stmt query args] st, None)
      else
        (case db_sql db (st_store st) query args of
           (s', None) \<Rightarrow> (emit [Sql query args] (st\<lparr>st_store := s'\<rparr>), None)
         | (s', Some e) \<Rightarrow>
             if e = UniqueViolation
             then (emit [Sql query args, Print_exc e] (st\<lparr>st_store := s'\<rparr>), None)
             else (emit [Sql query args] (st\<lparr>st_store := s'\<rparr>), Some e)))"

text \<open>
  The \<open>if default:\<close> block on the desired row at position \<open>j\<close>, written back into the
  caller's list.
\<close>

definition default_row :: "'s kwargs \<Rightarrow> nat \<Rightarrow> 's state \<Rightarrow> 's state \<times> error option" where
  "default_row kw j st =
     (case apply_defaults kw (st_upserts st ! j) of
        (r, err) \<Rightarrow> (st\<lparr>st_upserts := (st_upserts st)[j := r]\<rparr>, err))"

text \<open>The body of \<open>for update in to_update\<close>.\<close>

definition update_one ::
  "'s db \<Rightarrow> string \<Rightarrow> 's kwargs \<Rightarrow> string list \<Rightarrow> match \<Rightarrow> 's state \<Rightarrow> 's state \<times> error option" where
  "update_one db table kw flds update st =
     (if \<not> (m_current update < length (st_rows st) \<and> m_upsert update < length (st_upserts st))
      then (st, Some IndexError)
      else
        (case default_row kw (m_upsert update) st of
           (st1, Some e) \<Rightarrow> (st1, Some e)
         | (st1, None) \<Rightarrow>
             let cur = st_rows st1 ! m_current update;
                 ups = st_upserts st1 ! m_upsert update
             in
             (case diff_fields kw cur ups flds ([], []) of
                Inl e \<Rightarrow> (st1, Some e)
              | Inr (sets, args) \<Rightarrow>
                  if sets = [] then (st1, None)
                  else
                    (case key_preds cur (m_key update) of
                       Inl e \<Rightarrow> (st1, Some e)
                     | Inr (ws, as) \<Rightarrow>
                         run_stmt db kw
                           (update_query table sets
                              ((if has_where kw then [where_str kw] else []) @ ws))
                           (args @ as) st1))))"

fun updates_loop ::
  "'s db \<Rightarrow> string \<Rightarrow> 's kwargs \<Rightarrow> string list \<Rightarrow> match list \<Rightarrow> 's state \<Rightarrow> 's state \<times> error option" where
  "updates_loop db table kw flds [] st = (st, None)"
| "updates_loop db table kw flds (update # rest) st =
     (case update_one db table kw flds update st of
        (st', Some e) \<Rightarrow> (st', Some e)
      | (st', None) \<Rightarrow> updates_loop db table kw flds rest st')"

definition do_updates ::
  "'s db \<Rightarrow> string \<Rightarrow> match list \<Rightarrow> 's kwargs \<Rightarrow> 's state \<Rightarrow> 's state \<times> error option" where
  "do_updates db table to_update kw st =
     (case db_get_fields db (st_store st) table of
        Inl e \<Rightarrow> (st, Some e)
      | Inr flds \<Rightarrow>
          updates_loop db table kw (filter (\<lambda>x. x \<notin> set (kw_ignore kw)) flds) to_update st)"

section \<open>get_unmatched\<close>

text \<open>
  The positions no match record names. The source collects them in two Python sets, in
  increasing order, and later iterates over the sets. The order in which a set of integers
  is iterated is the runtime's; it is the parameter \<open>iter\<close>, which maps the positions in
  the order they were added to the order of iteration.
\<close>

record unmatched =
  un_current :: "nat list"
  un_upserts :: "nat list"

definition get_unmatched ::
  "(nat list \<Rightarrow> nat list) \<Rightarrow> match list \<Rightarrow> row list \<Rightarrow> row list \<Rightarrow> unmatched" where
  "get_unmatched iter to_update rows upserts =
     \<lparr>un_current = iter (filter (\<lambda>i. i \<notin> set (map m_current to_update)) [0..<length rows]),
      un_upserts = iter (filter (\<lambda>i. i \<notin> set (map m_upsert to_update)) [0..<length upserts])\<rparr>"

section \<open>do_inserts\<close>

text \<open>
  The \<open>if before:\<close> block. The arguments are resolved first, in every mode; the call
  itself is under \<open>if not kwargs.get("dryrun")\<close>.
\<close>

definition before_hook :: "'s kwargs \<Rightarrow> row \<Rightarrow> 's state \<Rightarrow> 's state \<times> error option" where
  "before_hook kw r st =
     (case kw_before_insert kw of
        None \<Rightarrow> (st, None)
      | Some (f, bargs) \<Rightarrow>
          (case resolve_args r bargs of
             Inl e \<Rightarrow> (st, Some e)
           | Inr args \<Rightarrow>
               if \<not> kw_dryrun kw then
                 (case f (st_store st) args of
                    (s', err) \<Rightarrow> (emit [Hook args] (st\<lparr>st_store := s'\<rparr>), err))
               else (st, None)))"

text \<open>
  The \<open>try\<close> block of an insert: print in dry-run, else call \<open>db.insert\<close>; a
  \<open>UniqueViolation\<close> is printed and swallowed.
\<close>

definition run_insert ::
  "'s db \<Rightarrow> string \<Rightarrow> 's kwargs \<Rightarrow> row \<Rightarrow> 's state \<Rightarrow> 's state \<times> error option" where
  "run_insert db table kw r st =
     (if kw_dryrun kw then (emit [Print_insert r] st, None)
      else
        (case db_insert db (st_store st) r table of
           (s', None) \<Rightarrow> (emit [Insert r table] (st\<lparr>st_store := s'\<rparr>), None)
         | (s', Some e) \<Rightarrow>
             if e = UniqueViolation
             then (emit [Insert r table, Print_exc e] (st\<lparr>st_store := s'\<rparr>), None)
             else (emit [Insert r table] (st\<lparr>st_store := s'\<rparr>), Some e)))"

text \<open>The body of \<open>for i in unmatched["upserts"]\<close>.\<close>

definition insert_one ::
  "'s db \<Rightarrow> string \<Rightarrow> 's kwargs \<Rightarrow> nat \<Rightarrow> 's state \<Rightarrow> 's state \<times> error option" where
  "insert_one db table kw i st =
     (if \<not> i < length (st_upserts st) then (st, Some IndexError)
      else
        (case default_row kw i st of
           (st1, Some e) \<Rightarrow> (st1, Some e)
         | (st1, None) \<Rightarrow>
             (case before_hook kw (st_upserts st1 ! i) st1 of
                (st2, Some e) \<Rightarrow> (st2, Some e)
              | (st2, None) \<Rightarrow> run_insert db table kw (st_upserts st2 ! i) st2)))"

fun do_inserts ::
  "'s db \<Rightarrow> string \<Rightarrow> nat list \<Rightarrow> 's kwargs \<Rightarrow> 's state \<Rightarrow> 's state \<times> error option" where
  "do_inserts db table [] kw st = (st, None)"
| "do_inserts db table (i # rest) kw st =
     (case insert_one db table kw i st of
        (st', Some e) \<Rightarrow> (st', Some e)
      | (st', None) \<Rightarrow> do_inserts db table rest kw st')"

section \<open>do_deletes\<close>

definition delete_query :: "string \<Rightarrow> string list \<Rightarrow> string" where
  "delete_query table wheres = ''DELETE FROM '' @ table @ '' WHERE '' @ join '' AND '' wheres"

text \<open>A delete is not inside a \<open>try\<close>: whatever \<open>db.sql\<close> raises leaves the loop.\<close>

definition run_delete ::
  "'s db \<Rightarrow> 's kwargs \<Rightarrow> string \<Rightarrow> val list \<Rightarrow> 's state \<Rightarrow> 's state \<times> error option" where
  "run_delete db kw query args st =
     (if kw_dryrun kw then (emit [Print_stmt query args] st, None)
      else
        (case db_sql db (st_store st) query args of
           (s', err) \<Rightarrow> (emit [Sql query args] (st\<lparr>st_store := s'\<rparr>), err)))"

text \<open>The loop \<open>for key in keys\<close> for the current row at position \<open>i\<close>.\<close>

fun delete_keys ::
  "'s db \<Rightarrow> string \<Rightarrow> 's kwargs \<Rightarrow> nat \<Rightarrow> string list list \<Rightarrow> 's state \<Rightarrow> 's state \<times> error option" where
  "delete_keys db table kw i [] st = (st, None)"
| "delete_keys db table kw i (key # keys) st =
     (if \<not> i < length (st_rows st) then (st, Some IndexError)
      else
        let r = st_rows st ! i in
        (case to_tup r key of
           Inl e \<Rightarrow> (st, Some e)
         | Inr tup \<Rightarrow>
             (case key_preds r key of
                Inl e \<Rightarrow> (st, Some e)
              | Inr (ws, as) \<Rightarrow>
                  (case run_delete db kw
                          (delete_query table
                             ((if has_where kw then [where_str kw] else [''1=1'']) @ ws))
                          as st of
                     (st', Some e) \<Rightarrow> (st', Some e)
                   | (st', None) \<Rightarrow> delete_keys db table kw i keys st'))))"

fun do_deletes ::
  "'s db \<Rightarrow> string \<Rightarrow> string list list \<Rightarrow> nat list \<Rightarrow> 's kwargs \<Rightarrow> 's state \<Rightarrow> 's state \<times> error option" where
  "do_deletes db table keys [] kw st = (st, None)"
| "do_deletes db table keys (i # rest) kw st =
     (case delete_keys db table kw i keys st of
        (st', Some e) \<Rightarrow> (st', Some e)
      | (st', None) \<Rightarrow> do_deletes db table keys rest kw st')"

section \<open>upsert\<close>

datatype retval = RTrue | RRows "row list"

definition init_state :: "'s \<Rightarrow> row list \<Rightarrow> 's state" where
  "init_state s upserts = \<lparr>st_store = s, st_rows = [], st_upserts = upserts, st_out = []\<rparr>"

text \<open>
  The body of \<open>upsert\<close>: the phases in order, an exception of any phase ending the
  invocation. The result is the final state and what the call returns or raises.
\<close>

definition upsert ::
  "(nat list \<Rightarrow> nat list) \<Rightarrow> 's db \<Rightarrow> 's \<Rightarrow> string \<Rightarrow> keys_arg \<Rightarrow> row list \<Rightarrow> 's kwargs \<Rightarrow> 's state \<times> (error + retval)" where
  "upsert iter db s table keys_arg upserts kw =
     (let keys = parse_keys keys_arg; st0 = init_state s upserts in
      case get_current db s table keys kw of
        Inl e \<Rightarrow> (st0, Inl e)
      | Inr cur \<Rightarrow>
          let st1 = st0\<lparr>st_rows := cur_rows cur\<rparr> in
          (case get_to_update cur upserts keys kw of
             Inl e \<Rightarrow> (st1, Inl e)
           | Inr to_update \<Rightarrow>
               (case do_updates db table to_update kw st1 of
                  (st2, Some e) \<Rightarrow> (st2, Inl e)
                | (st2, None) \<Rightarrow>
                    let un = get_unmatched iter to_update (st_rows st2) (st_upserts st2) in
                    (case (if \<not> kw_noinsert kw then do_inserts db table (un_upserts un) kw st2
                           else (st2, None)) of
                       (st3, Some e) \<Rightarrow> (st3, Inl e)
                     | (st3, None) \<Rightarrow>
                         (case (if kw_delete kw
                                then do_deletes db table keys (un_current un) kw st3
                                else (st3, None)) of
                            (st4, Some e) \<Rightarrow> (st4, Inl e)
                          | (st4, None) \<Rightarrow>
                              (st4,
                               Inr (if kw_get_unmatched kw
                                    then RRows (map (\<lambda>i. st_upserts st4 ! i) (un_upserts un))
                                    else RTrue)))))))"

section \<open>Vocabulary of the properties\<close>

text \<open>Index lookup: position \<open>i\<close> is in the list the index holds for \<open>tup\<close>.\<close>

definition indexed :: "dict \<Rightarrow> val list \<Rightarrow> nat \<Rightarrow> bool" where
  "indexed d tup i = (case dict_get d tup of None \<Rightarrow> False | Some ps \<Rightarrow> i \<in> set ps)"

text \<open>The row holds every field of the key, so \<open>to_tup\<close> raises no \<open>KeyError\<close>.\<close>

definition has_fields :: "row \<Rightarrow> string list \<Rightarrow> bool" where
  "has_fields r key = list_all (\<lambda>f. map_of r f \<noteq> None) key"

text \<open>
  Some field of the key-maps has a non-empty alias table and is not a field of the key.
\<close>

definition bad_keymap :: "string list \<Rightarrow> keymaps \<Rightarrow> bool" where
  "bad_keymap key kms = list_ex (\<lambda>(f, m). m \<noteq> [] \<and> f \<notin> set key) kms"

text \<open>
  Field \<open>f\<close> is present in both rows with non-null values of different types.
\<close>

definition type_mismatch :: "row \<Rightarrow> row \<Rightarrow> string \<Rightarrow> bool" where
  "type_mismatch cur ups f =
     (case map_of cur f of
        None \<Rightarrow> False
      | Some c \<Rightarrow>
          (case map_of ups f of
             None \<Rightarrow> False
           | Some n \<Rightarrow> c \<noteq> VNone \<and> n \<noteq> VNone \<and> py_type c \<noteq> py_type n))"

text \<open>
  The desired row agrees with the current row on field \<open>f\<close>: the same value, a field the
  desired row does not hold counting as \<open>None\<close> when \<open>overwrite\<close> is set and as no
  change otherwise.
\<close>

definition agrees :: "'s kwargs \<Rightarrow> row \<Rightarrow> row \<Rightarrow> string \<Rightarrow> bool" where
  "agrees kw cur ups f =
     (case map_of cur f of
        None \<Rightarrow> False
      | Some c \<Rightarrow>
          (case map_of ups f of
             None \<Rightarrow> \<not> kw_overwrite kw \<or> c = VNone
           | Some n \<Rightarrow> n = c))"

text \<open>
  The state after the default blocks of the match records, taken in order, and nothing
  else; and the records all agreeing: for each record in order, its default block raises
  nothing and gives a desired row that agrees with the record's current row on every
  field of the list, the default blocks of the earlier records having been applied.
\<close>

fun run_defaults :: "'s kwargs \<Rightarrow> match list \<Rightarrow> 's state \<Rightarrow> 's state" where
  "run_defaults kw [] st = st"
| "run_defaults kw (u # ms) st = run_defaults kw ms (fst (default_row kw (m_upsert u) st))"

fun all_agree :: "'s kwargs \<Rightarrow> string list \<Rightarrow> match list \<Rightarrow> 's state \<Rightarrow> bool" where
  "all_agree kw flds [] st = True"
| "all_agree kw flds (u # ms) st =
     (case default_row kw (m_upsert u) st of
        (sd, Some e) \<Rightarrow> False
      | (sd, None) \<Rightarrow>
          list_all (agrees kw (st_rows st ! m_current u) (st_upserts sd ! m_upsert u)) flds \<and>
          all_agree kw flds ms sd)"

text \<open>The argument lists of the hook calls, and the rows of the \<open>db.insert\<close> calls, of an output.\<close>

fun hook_calls :: "event list \<Rightarrow> val list list" where
  "hook_calls [] = []"
| "hook_calls (Hook args # es) = args # hook_calls es"
| "hook_calls (e # es) = hook_calls es"

fun insert_rows :: "event list \<Rightarrow> row list" where
  "insert_rows [] = []"
| "insert_rows (Insert r t # es) = r # insert_rows es"
| "insert_rows (e # es) = insert_rows es"

text \<open>
  The defaults of row \<open>r\<close> are computed without an exception, and the arguments of the
  hook, if there is one, resolve on the row they give.
\<close>

definition prepares :: "'s kwargs \<Rightarrow> row \<Rightarrow> bool" where
  "prepares kw r =
     (case apply_defaults kw r of
        (r', Some e) \<Rightarrow> False
      | (r', None) \<Rightarrow>
          (case kw_before_insert kw of
             None \<Rightarrow> True
           | Some (h, bargs) \<Rightarrow>
               (case resolve_args r' bargs of Inl e \<Rightarrow> False | Inr args \<Rightarrow> True)))"

text \<open>
  What is known of the iteration order of a set: every element comes once.
\<close>

definition set_order :: "(nat list \<Rightarrow> nat list) \<Rightarrow> bool" where
  "set_order iter = (\<forall>xs. distinct xs \<longrightarrow> distinct (iter xs) \<and> set (iter xs) = set xs)"

section \<open>Concrete stores and options\<close>

text \<open>The iteration order of a runtime that iterates a set in the order of insertion.\<close>

definition insertion_order :: "nat list \<Rightarrow> nat list" where
  "insertion_order xs = xs"

text \<open>No option given.\<close>

definition kw0 :: "'s kwargs" where
  "kw0 = \<lparr>kw_where = None, kw_delete = False, kw_ignore = [], kw_default = [],
          kw_noinsert = False, kw_get_unmatched = False, kw_overwrite = False,
          kw_ignorenull = False, kw_before_insert = None, kw_nonullkeys = False,
          kw_keymaps = [], kw_dryrun = False\<rparr>"

text \<open>
  A store whose state is the list of the table's rows: \<open>get\<close> returns them, \<open>insert\<close>
  appends a row, \<open>sql\<close> accepts every statement and leaves the rows as they are.
\<close>

definition mem_db :: "string list \<Rightarrow> (row list) db" where
  "mem_db cols =
     \<lparr>db_get = (\<lambda>s q. Inr s), db_get_fields = (\<lambda>s t. Inr cols),
      db_sql = (\<lambda>s q args. (s, None)), db_insert = (\<lambda>s r t. (s @ [r], None))\<rparr>"

text \<open>
  The same store with a uniqueness constraint on column \<open>col\<close>: inserting a row whose
  value there is already in the table raises \<open>UniqueViolation\<close>.
\<close>

definition uniq_db :: "string \<Rightarrow> string list \<Rightarrow> (row list) db" where
  "uniq_db col cols =
     \<lparr>db_get = (\<lambda>s q. Inr s), db_get_fields = (\<lambda>s t. Inr cols),
      db_sql = (\<lambda>s q args. (s, None)),
      db_insert = (\<lambda>s r t.
        if list_ex (\<lambda>r'. get_or_none r' col = get_or_none r col) s
        then (s, Some UniqueViolation) else (s @ [r], None))\<rparr>"

text \<open>A hook that does nothing.\<close>

definition quiet_hook :: "row list \<Rightarrow> val list \<Rightarrow> row list \<times> error option" where
  "quiet_hook s args = (s, None)"

text \<open>A default function that returns the string \<open>a\<close>.\<close>

definition const_a :: "val list \<Rightarrow> error + val" where
  "const_a args = Inr (VStr ''a'')"

section \<open>Evaluation\<close>

lemmas model_defs = get_current_def get_to_update_def mem_db_def uniq_db_def kw0_def
  select_query_def has_where_def where_str_def getitem_def get_or_none_def init_state_def
  do_updates_def update_one_def default_row_def run_stmt_def emit_def update_query_def pred_def
  upsert_def get_unmatched_def insert_one_def before_hook_def run_insert_def delete_query_def
  run_delete_def get_default_def apply_defaults_def quiet_hook_def insertion_order_def Let_def

section \<open>Properties\<close>

subsection \<open>The index holds what is registered\<close>

lemma py_eq_refl: "py_eq v v"
  by (cases v) auto

lemma tup_eq_refl: "tup_eq t t"
  by (induction t) (auto simp: py_eq_refl)

lemma indexed_dict_append_same: "indexed (dict_append d t i) t i"
  by (induction d t i rule: dict_append.induct) (auto simp: indexed_def tup_eq_refl)

lemma indexed_dict_append_mono: "indexed d t' j \<Longrightarrow> indexed (dict_append d t i) t' j"
  by (induction d t i rule: dict_append.induct) (auto simp: indexed_def split: if_splits)

lemma indexed_add_tups_mono: "indexed d t' j \<Longrightarrow> indexed (add_tups ts i d) t' j"
  by (induction ts arbitrary: d) (auto simp: indexed_dict_append_mono)

lemma indexed_add_tups_mem: "t \<in> set ts \<Longrightarrow> indexed (add_tups ts i d) t i"
  by (induction ts arbitrary: d)
     (auto simp: indexed_dict_append_same indexed_add_tups_mono)

lemma alias_k_mono: "alias_k key tup field m tups = Inr tups' \<Longrightarrow> set tups \<subseteq> set tups'"
proof (induction m arbitrary: tups)
  case Nil
  then show ?case by simp
next
  case (Cons a m)
  obtain k vs where a: "a = (k, vs)" by (cases a)
  from Cons.prems a obtain idx where
    "alias_k key tup field m
       (if py_eq (tup ! idx) k then tups @ map (\<lambda>v. tup[idx := v]) vs else tups) = Inr tups'"
    by (auto split: option.splits)
  from Cons.IH[OF this] show ?case by (auto split: if_splits)
qed

lemma alias_fields_mono: "alias_fields key tup kms tups = Inr tups' \<Longrightarrow> set tups \<subseteq> set tups'"
proof (induction kms arbitrary: tups)
  case Nil
  then show ?case by simp
next
  case (Cons a kms)
  obtain f m where a: "a = (f, m)" by (cases a)
  from Cons.prems a obtain tups1 where
    1: "alias_k key tup f m tups = Inr tups1" and 2: "alias_fields key tup kms tups1 = Inr tups'"
    by (auto split: sum.splits)
  from alias_k_mono[OF 1] Cons.IH[OF 2] show ?case by blast
qed

lemma alias_k_mem:
  "alias_k key tup field m tups = Inr tups' \<Longrightarrow> (k, vs) \<in> set m \<Longrightarrow>
   index_of key field = Some idx \<Longrightarrow> py_eq (tup ! idx) k \<Longrightarrow> v \<in> set vs \<Longrightarrow>
   tup[idx := v] \<in> set tups'"
proof (induction m arbitrary: tups)
  case Nil
  then show ?case by simp
next
  case (Cons a m)
  obtain k' vs' where a: "a = (k', vs')" by (cases a)
  show ?case
  proof (cases "(k, vs) = a")
    case True
    with Cons.prems a have
      "alias_k key tup field m (tups @ map (\<lambda>v. tup[idx := v]) vs) = Inr tups'"
      by auto
    from alias_k_mono[OF this] Cons.prems(5) show ?thesis by auto
  next
    case False
    with Cons.prems a have "(k, vs) \<in> set m" by auto
    moreover from Cons.prems a obtain tups1 where "alias_k key tup field m tups1 = Inr tups'"
      by (auto split: if_splits)
    ultimately show ?thesis using Cons.IH Cons.prems by blast
  qed
qed

lemma alias_fields_mem:
  "alias_fields key tup kms tups = Inr tups' \<Longrightarrow> (field, m) \<in> set kms \<Longrightarrow> (k, vs) \<in> set m \<Longrightarrow>
   index_of key field = Some idx \<Longrightarrow> py_eq (tup ! idx) k \<Longrightarrow> v \<in> set vs \<Longrightarrow>
   tup[idx := v] \<in> set tups'"
proof (induction kms arbitrary: tups)
  case Nil
  then show ?case by simp
next
  case (Cons a kms)
  obtain f' m' where a: "a = (f', m')" by (cases a)
  from Cons.prems(1) a obtain tups1 where
    1: "alias_k key tup f' m' tups = Inr tups1" and 2: "alias_fields key tup kms tups1 = Inr tups'"
    by (auto split: sum.splits)
  show ?case
  proof (cases "(field, m) = a")
    case True
    with a 1 Cons.prems have "tup[idx := v] \<in> set tups1"
      using alias_k_mem by blast
    with alias_fields_mono[OF 2] show ?thesis by auto
  next
    case False
    with Cons.prems have "(field, m) \<in> set kms" by auto
    with Cons.IH[OF 2] Cons.prems show ?thesis by blast
  qed
qed

lemma index_keys_mono:
  "index_keys r i keys kms d = Inr d' \<Longrightarrow> indexed d t j \<Longrightarrow> indexed d' t j"
proof (induction keys arbitrary: d)
  case Nil
  then show ?case by simp
next
  case (Cons key keys)
  from Cons.prems(1) obtain tups where
    "index_keys r i keys kms (add_tups tups i d) = Inr d'"
    by (auto split: sum.splits)
  from Cons.IH[OF this] Cons.prems(2) show ?case
    by (simp add: indexed_add_tups_mono)
qed

lemma index_keys_mem:
  "index_keys r i keys kms d = Inr d' \<Longrightarrow> key \<in> set keys \<Longrightarrow>
   \<exists>tup tups. to_tup r key = Inr tup \<and> alias_fields key tup kms [tup] = Inr tups \<and>
     (\<forall>t\<in>set tups. indexed d' t i)"
proof (induction keys arbitrary: d)
  case Nil
  then show ?case by simp
next
  case (Cons key' keys)
  from Cons.prems(1) obtain tup tups where
    1: "to_tup r key' = Inr tup" and 2: "alias_fields key' tup kms [tup] = Inr tups" and
    3: "index_keys r i keys kms (add_tups tups i d) = Inr d'"
    by (auto split: sum.splits)
  show ?case
  proof (cases "key = key'")
    case True
    have "\<forall>t\<in>set tups. indexed d' t i"
      using index_keys_mono[OF 3] indexed_add_tups_mem by blast
    with True 1 2 show ?thesis by blast
  next
    case False
    with Cons.prems(2) have "key \<in> set keys" by simp
    from Cons.IH[OF 3 this] show ?thesis .
  qed
qed

lemma index_rows_mono:
  "index_rows rs n keys kms d = Inr d' \<Longrightarrow> indexed d t j \<Longrightarrow> indexed d' t j"
proof (induction rs arbitrary: n d)
  case Nil
  then show ?case by simp
next
  case (Cons r rs)
  from Cons.prems(1) obtain d1 where
    1: "index_keys r n keys kms d = Inr d1" and 2: "index_rows rs (Suc n) keys kms d1 = Inr d'"
    by (auto split: sum.splits)
  from Cons.IH[OF 2] index_keys_mono[OF 1 Cons.prems(2)] show ?case by blast
qed

lemma index_rows_mem:
  "index_rows rs n keys kms d = Inr d' \<Longrightarrow> i < length rs \<Longrightarrow> key \<in> set keys \<Longrightarrow>
   \<exists>tup tups. to_tup (rs ! i) key = Inr tup \<and> alias_fields key tup kms [tup] = Inr tups \<and>
     (\<forall>t\<in>set tups. indexed d' t (n + i))"
proof (induction rs arbitrary: n d i)
  case Nil
  then show ?case by simp
next
  case (Cons r rs)
  from Cons.prems(1) obtain d1 where
    1: "index_keys r n keys kms d = Inr d1" and 2: "index_rows rs (Suc n) keys kms d1 = Inr d'"
    by (auto split: sum.splits)
  show ?case
  proof (cases i)
    case 0
    from index_keys_mem[OF 1 Cons.prems(3)] obtain tup tups where
      a: "to_tup r key = Inr tup" "alias_fields key tup kms [tup] = Inr tups"
         "\<forall>t\<in>set tups. indexed d1 t n"
      by blast
    from a(3) index_rows_mono[OF 2] have "\<forall>t\<in>set tups. indexed d' t n" by blast
    with a 0 show ?thesis by auto
  next
    case (Suc i')
    with Cons.prems(2) have "i' < length rs" by simp
    from Cons.IH[OF 2 this Cons.prems(3)] Suc show ?thesis by simp
  qed
qed

lemma py_eq_sym: "py_eq a b \<Longrightarrow> py_eq b a"
  by (cases a; cases b) (auto split: if_splits)

lemma py_eq_trans: "py_eq a b \<Longrightarrow> py_eq b c \<Longrightarrow> py_eq a c"
  by (cases a; cases b; cases c) (auto split: if_splits)

lemma tup_eq_sym: "tup_eq s t \<Longrightarrow> tup_eq t s"
  by (induction s t rule: tup_eq.induct) (auto intro: py_eq_sym)

lemma tup_eq_trans: "tup_eq s t \<Longrightarrow> tup_eq t u \<Longrightarrow> tup_eq s u"
proof (induction s t arbitrary: u rule: tup_eq.induct)
  case 1
  then show ?case by simp
next
  case (2 x xs y ys)
  then obtain z zs where u: "u = z # zs" by (cases u) auto
  with 2 show ?case by (auto intro: py_eq_trans)
qed simp_all

lemma dict_get_tup_eq: "tup_eq t t' \<Longrightarrow> dict_get d t = dict_get d t'"
proof (induction d)
  case Nil
  then show ?case by simp
next
  case (Cons a d)
  obtain k ps where a: "a = (k, ps)" by (cases a)
  from Cons.prems have "tup_eq k t \<longleftrightarrow> tup_eq k t'"
    using tup_eq_trans tup_eq_sym by blast
  with Cons a show ?case by simp
qed

lemma indexed_tup_eq: "tup_eq t t' \<Longrightarrow> indexed d t i \<Longrightarrow> indexed d t' i"
  by (simp add: indexed_def dict_get_tup_eq)

lemma get_current_rows:
  "get_current db s table keys kw = Inr cur \<Longrightarrow>
   db_get db s (select_query table kw) = Inr (cur_rows cur)"
  by (auto simp: get_current_def split: sum.splits)

lemma get_current_literal:
  assumes "get_current db s table keys kw = Inr cur"
    and "i < length (cur_rows cur)" and "key \<in> set keys"
    and "to_tup (cur_rows cur ! i) key = Inr tup"
  shows "indexed (cur_tups cur) tup i"
proof -
  from assms(1) obtain rs d where
    rs: "cur_rows cur = rs" and d: "cur_tups cur = d" and
    ix: "index_rows rs 0 keys (kw_keymaps kw) [] = Inr d"
    by (auto simp: get_current_def split: sum.splits)
  from index_rows_mem[OF ix] assms(2,3) rs obtain tup' tups where
    t: "to_tup (rs ! i) key = Inr tup'" and
    a: "alias_fields key tup' (kw_keymaps kw) [tup'] = Inr tups" and
    m: "\<forall>t\<in>set tups. indexed d t i"
    by fastforce
  from t assms(4) rs have "tup' = tup" by simp
  with alias_fields_mono[OF a] m d show ?thesis by auto
qed

text \<open>
  C4. When the index is built, the rows of the snapshot are the rows the store returned,
  and for every one of them, at position \<open>i\<close>, and every declared key the index holds
  \<open>i\<close> under the row's literal key-tuple, and, for every key-map field of the key at
  position \<open>idx\<close>, every source value \<open>k\<close> equal to the tuple's value there and every
  alias \<open>v\<close> of \<open>k\<close>, also under the tuple with \<open>v\<close> at \<open>idx\<close>.
\<close>

theorem alias_symmetry:
  assumes "db_get db s (select_query table kw) = Inr rs"
    and "get_current db s table keys kw = Inr cur"
    and "i < length rs" and "key \<in> set keys"
  shows "cur_rows cur = rs \<and>
         (\<exists>tup. to_tup (rs ! i) key = Inr tup \<and>
           indexed (cur_tups cur) tup i \<and>
           (\<forall>(field, m)\<in>set (kw_keymaps kw). \<forall>(k, vs)\<in>set m. \<forall>idx.
              index_of key field = Some idx \<and> py_eq (tup ! idx) k \<longrightarrow>
              (\<forall>v\<in>set vs. indexed (cur_tups cur) (tup[idx := v]) i)))"
proof -
  from assms(1,2) have rs: "cur_rows cur = rs" and d: "\<exists>d. cur_tups cur = d" 
    by (auto simp: get_current_def split: sum.splits)
  from assms(1,2) have
    ix: "index_rows rs 0 keys (kw_keymaps kw) [] = Inr (cur_tups cur)"
    by (auto simp: get_current_def split: sum.splits)
  from index_rows_mem[OF ix assms(3,4)] obtain tup tups where
    t: "to_tup (rs ! i) key = Inr tup" and
    a: "alias_fields key tup (kw_keymaps kw) [tup] = Inr tups" and
    m: "\<forall>t\<in>set tups. indexed (cur_tups cur) t i"
    by fastforce
  from alias_fields_mono[OF a] m have lit: "indexed (cur_tups cur) tup i" by auto
  have "indexed (cur_tups cur) (tup[idx := v]) i"
    if "(field, m) \<in> set (kw_keymaps kw)" "(k, vs) \<in> set m"
       "index_of key field = Some idx" "py_eq (tup ! idx) k" "v \<in> set vs"
    for field m k vs idx v
    using alias_fields_mem[OF a that] m by blast
  with t lit rs show ?thesis by blast
qed

theorem alias_symmetry_witness:
  "\<exists>cur. get_current (mem_db [''id'', ''name''])
            [[(''id'', VInt 1), (''name'', VStr ''a'')], [(''id'', VInt 2), (''name'', VStr ''b'')]]
            ''t'' [[''id'']] (kw0\<lparr>kw_keymaps := [(''id'', [(VInt 2, [VInt 200])])]\<rparr>) = Inr cur \<and>
         cur_rows cur =
           [[(''id'', VInt 1), (''name'', VStr ''a'')], [(''id'', VInt 2), (''name'', VStr ''b'')]] \<and>
         indexed (cur_tups cur) [VInt 1] 0 \<and>
         indexed (cur_tups cur) [VInt 2] 1 \<and> indexed (cur_tups cur) [VInt 200] 1"
proof -
  let ?db = "mem_db [''id'', ''name'']"
  let ?s = "[[(''id'', VInt 1), (''name'', VStr ''a'')], [(''id'', VInt 2), (''name'', VStr ''b'')]]"
  let ?kw = "kw0\<lparr>kw_keymaps := [(''id'', [(VInt 2, [VInt 200])])]\<rparr> :: (row list) kwargs"
  let ?cur = "\<lparr>cur_rows = ?s, cur_tups = [([VInt 1], [0]), ([VInt 2], [1]), ([VInt 200], [1])]\<rparr>"
  have dg: "db_get ?db ?s (select_query ''t'' ?kw) = Inr ?s"
    by (simp add: mem_db_def)
  have g: "get_current ?db ?s ''t'' [[''id'']] ?kw = Inr ?cur"
    by (simp add: model_defs)
  have i0: "0 < length ?s" and i1: "1 < length ?s" by simp_all
  have k: "[''id''] \<in> set [[''id'']]" by simp
  from alias_symmetry[OF dg g i0 k] obtain tup0 where
    r: "cur_rows ?cur = ?s" and
    t0: "to_tup (?s ! 0) [''id''] = Inr tup0" and
    l0: "indexed (cur_tups ?cur) tup0 0"
    by blast
  from t0 have e0: "tup0 = [VInt 1]" by (simp add: getitem_def)
  from alias_symmetry[OF dg g i1 k] obtain tup1 where
    t1: "to_tup (?s ! 1) [''id''] = Inr tup1" and
    l1: "indexed (cur_tups ?cur) tup1 1" and
    a1: "\<forall>(field, m)\<in>set (kw_keymaps ?kw). \<forall>(k, vs)\<in>set m. \<forall>idx.
              index_of [''id''] field = Some idx \<and> py_eq (tup1 ! idx) k \<longrightarrow>
              (\<forall>v\<in>set vs. indexed (cur_tups ?cur) (tup1[idx := v]) 1)"
    by blast
  from t1 have e1: "tup1 = [VInt 2]" by (simp add: getitem_def)
  from a1 e1 have "indexed (cur_tups ?cur) ([VInt 2][0 := VInt 200]) 1"
    by (simp add: kw0_def)
  with g r l0 e0 l1 e1 show ?thesis by simp
qed

subsection \<open>Key-map fields outside a key\<close>

lemma index_of_None: "index_of key f = None \<longleftrightarrow> f \<notin> set key"
  by (induction key) (auto split: option.splits)

lemma alias_k_Inl:
  "alias_k key tup f m tups = Inl e \<Longrightarrow> e = ValueError f \<and> m \<noteq> [] \<and> f \<notin> set key"
proof (induction m arbitrary: tups)
  case Nil
  then show ?case by simp
next
  case (Cons a m)
  obtain k vs where a: "a = (k, vs)" by (cases a)
  show ?case
  proof (cases "index_of key f")
    case None
    with Cons.prems a show ?thesis by (simp add: index_of_None)
  next
    case (Some idx)
    with Cons.prems a Cons.IH show ?thesis by (auto split: if_splits)
  qed
qed

lemma alias_k_raises:
  "m \<noteq> [] \<Longrightarrow> f \<notin> set key \<Longrightarrow> alias_k key tup f m tups = Inl (ValueError f)"
  by (cases m) (auto simp: index_of_None[symmetric])

lemma alias_fields_Inl:
  "alias_fields key tup kms tups = Inl e \<Longrightarrow> bad_keymap key kms \<and> (\<exists>f. e = ValueError f)"
proof (induction kms arbitrary: tups)
  case Nil
  then show ?case by simp
next
  case (Cons a kms)
  obtain f m where a: "a = (f, m)" by (cases a)
  show ?case
  proof (cases "alias_k key tup f m tups")
    case (Inl e')
    with Cons.prems a have "e' = e" by simp
    with alias_k_Inl[OF Inl] a show ?thesis by (auto simp: bad_keymap_def)
  next
    case (Inr tups1)
    with Cons.prems a have "alias_fields key tup kms tups1 = Inl e" by simp
    from Cons.IH[OF this] show ?thesis by (auto simp: bad_keymap_def)
  qed
qed

lemma alias_fields_raises:
  "bad_keymap key kms \<Longrightarrow> \<exists>f. alias_fields key tup kms tups = Inl (ValueError f)"
proof (induction kms arbitrary: tups)
  case Nil
  then show ?case by (simp add: bad_keymap_def)
next
  case (Cons a kms)
  obtain f m where a: "a = (f, m)" by (cases a)
  show ?case
  proof (cases "alias_k key tup f m tups")
    case (Inl e)
    with alias_k_Inl[OF Inl] a show ?thesis by auto
  next
    case (Inr tups1)
    have "\<not> (m \<noteq> [] \<and> f \<notin> set key)"
      using alias_k_raises[of m f key tup tups] Inr by auto
    with Cons.prems a have "bad_keymap key kms" by (auto simp: bad_keymap_def)
    from Cons.IH[OF this, of tups1] Inr a show ?thesis by simp
  qed
qed

lemma to_tup_total: "has_fields r key \<Longrightarrow> \<exists>tup. to_tup r key = Inr tup"
  by (induction key) (auto simp: has_fields_def getitem_def split: option.splits)

lemma to_tup_Inl: "to_tup r key = Inl e \<Longrightarrow> \<exists>f. e = KeyError f"
  by (induction key) (auto simp: getitem_def split: option.splits sum.splits)

lemma index_keys_Inl_ValueError:
  "index_keys r i keys kms d = Inl (ValueError f) \<Longrightarrow> list_ex (\<lambda>key. bad_keymap key kms) keys"
proof (induction keys arbitrary: d)
  case Nil
  then show ?case by simp
next
  case (Cons key keys)
  show ?case
  proof (cases "to_tup r key")
    case (Inl e)
    with Cons.prems to_tup_Inl[OF Inl] show ?thesis by auto
  next
    case tt: (Inr tup)
    show ?thesis
    proof (cases "alias_fields key tup kms [tup]")
      case (Inl e)
      from alias_fields_Inl[OF Inl] show ?thesis by simp
    next
      case (Inr tups)
      with tt Cons.prems have "index_keys r i keys kms (add_tups tups i d) = Inl (ValueError f)"
        by simp
      from Cons.IH[OF this] show ?thesis by simp
    qed
  qed
qed

lemma index_keys_raises:
  "list_all (has_fields r) keys \<Longrightarrow> list_ex (\<lambda>key. bad_keymap key kms) keys \<Longrightarrow>
   \<exists>f. index_keys r i keys kms d = Inl (ValueError f)"
proof (induction keys arbitrary: d)
  case Nil
  then show ?case by simp
next
  case (Cons key keys)
  from Cons.prems(1) to_tup_total obtain tup where tt: "to_tup r key = Inr tup" by auto
  show ?case
  proof (cases "alias_fields key tup kms [tup]")
    case (Inl e)
    with alias_fields_Inl[OF Inl] tt show ?thesis by auto
  next
    case (Inr tups)
    have "\<not> bad_keymap key kms"
      using alias_fields_raises[of key kms tup "[tup]"] Inr by auto
    with Cons.prems have "list_all (has_fields r) keys" "list_ex (\<lambda>key. bad_keymap key kms) keys"
      by auto
    from Cons.IH[OF this, of "add_tups tups i d"] tt Inr show ?thesis by simp
  qed
qed

lemma index_rows_Inl_ValueError:
  "index_rows rs n keys kms d = Inl (ValueError f) \<Longrightarrow> list_ex (\<lambda>key. bad_keymap key kms) keys"
proof (induction rs arbitrary: n d)
  case Nil
  then show ?case by simp
next
  case (Cons r rs)
  show ?case
  proof (cases "index_keys r n keys kms d")
    case (Inl e)
    with Cons.prems index_keys_Inl_ValueError show ?thesis by auto
  next
    case (Inr d1)
    with Cons.prems have "index_rows rs (Suc n) keys kms d1 = Inl (ValueError f)" by simp
    from Cons.IH[OF this] show ?thesis .
  qed
qed

text \<open>
  C9, as it holds of the code. Let the snapshot have at least one row, and let its first
  row hold every field of every key. If some key-map field with a non-empty alias table
  is not a field of some declared key, building the index raises \<open>ValueError\<close>, and the
  invocation ends with it before anything is matched, printed or executed. If there is no
  such field, building the index never raises \<open>ValueError\<close>.
\<close>

theorem keymap_field_outside_key:
  assumes "db_get db s (select_query table kw) = Inr (r # rs)"
    and "list_all (has_fields r) (parse_keys ka)"
  shows "(list_ex (\<lambda>key. bad_keymap key (kw_keymaps kw)) (parse_keys ka) \<longrightarrow>
            (\<exists>f. get_current db s table (parse_keys ka) kw = Inl (ValueError f) \<and>
                 upsert iter db s table ka upserts kw = (init_state s upserts, Inl (ValueError f)))) \<and>
         (\<not> list_ex (\<lambda>key. bad_keymap key (kw_keymaps kw)) (parse_keys ka) \<longrightarrow>
            (\<forall>f. get_current db s table (parse_keys ka) kw \<noteq> Inl (ValueError f)))"
proof (intro conjI impI allI)
  let ?keys = "parse_keys ka"
  assume "list_ex (\<lambda>key. bad_keymap key (kw_keymaps kw)) ?keys"
  from index_keys_raises[OF assms(2) this, of 0 "[]"] obtain f where
    "index_keys r 0 ?keys (kw_keymaps kw) [] = Inl (ValueError f)" by blast
  with assms(1) have g: "get_current db s table ?keys kw = Inl (ValueError f)"
    by (simp add: get_current_def)
  then have "upsert iter db s table ka upserts kw = (init_state s upserts, Inl (ValueError f))"
    by (simp add: upsert_def)
  with g show "\<exists>f. get_current db s table ?keys kw = Inl (ValueError f) \<and>
      upsert iter db s table ka upserts kw = (init_state s upserts, Inl (ValueError f))"
    by blast
next
  fix f
  let ?keys = "parse_keys ka"
  assume n: "\<not> list_ex (\<lambda>key. bad_keymap key (kw_keymaps kw)) ?keys"
  show "get_current db s table ?keys kw \<noteq> Inl (ValueError f)"
  proof
    assume "get_current db s table ?keys kw = Inl (ValueError f)"
    with assms(1) have "index_rows (r # rs) 0 ?keys (kw_keymaps kw) [] = Inl (ValueError f)"
      by (simp add: get_current_def split: sum.splits)
    from index_rows_Inl_ValueError[OF this] n show False by simp
  qed
qed

theorem keymap_field_outside_key_witness:
  "upsert insertion_order (mem_db [''id'', ''name'']) [[(''id'', VInt 1), (''name'', VStr ''a'')]] ''t''
     (Single (Scalar ''id'')) []
     (kw0\<lparr>kw_keymaps := [(''name'', [(VStr ''a'', [VStr ''b''])])]\<rparr>)
   = (init_state [[(''id'', VInt 1), (''name'', VStr ''a'')]] [], Inl (ValueError ''name'')) \<and>
   get_current (mem_db [''id'', ''name'']) [[(''id'', VInt 1), (''name'', VStr ''a'')]] ''t''
     (parse_keys (Single (Scalar ''id'')))
     (kw0\<lparr>kw_keymaps := [(''id'', [(VInt 1, [VInt 100])])]\<rparr>) \<noteq> Inl (ValueError ''id'')"
proof -
  let ?db = "mem_db [''id'', ''name'']"
  let ?r = "[(''id'', VInt 1), (''name'', VStr ''a'')]"
  let ?ka = "Single (Scalar ''id'')"
  let ?bad = "kw0\<lparr>kw_keymaps := [(''name'', [(VStr ''a'', [VStr ''b''])])]\<rparr> :: (row list) kwargs"
  let ?good = "kw0\<lparr>kw_keymaps := [(''id'', [(VInt 1, [VInt 100])])]\<rparr> :: (row list) kwargs"
  have b: "db_get ?db [?r] (select_query ''t'' ?bad) = Inr (?r # [])"
    by (simp add: mem_db_def)
  have g: "db_get ?db [?r] (select_query ''t'' ?good) = Inr (?r # [])"
    by (simp add: mem_db_def)
  have f: "list_all (has_fields ?r) (parse_keys ?ka)"
    by (simp add: has_fields_def)
  have x: "list_ex (\<lambda>key. bad_keymap key (kw_keymaps ?bad)) (parse_keys ?ka)"
    by (simp add: bad_keymap_def kw0_def)
  have y: "\<not> list_ex (\<lambda>key. bad_keymap key (kw_keymaps ?good)) (parse_keys ?ka)"
    by (simp add: bad_keymap_def kw0_def)
  from keymap_field_outside_key[OF b f, where upserts = "[]" and iter = insertion_order] x
  have 1: "\<exists>f. get_current ?db [?r] ''t'' (parse_keys ?ka) ?bad = Inl (ValueError f) \<and>
            upsert insertion_order ?db [?r] ''t'' ?ka [] ?bad = (init_state [?r] [], Inl (ValueError f))"
    by blast
  have "get_current ?db [?r] ''t'' (parse_keys ?ka) ?bad = Inl (ValueError ''name'')"
    by (simp add: model_defs)
  with 1 have u: "upsert insertion_order ?db [?r] ''t'' ?ka [] ?bad = (init_state [?r] [], Inl (ValueError ''name''))"
    by auto
  from keymap_field_outside_key[OF g f, where upserts = "[]" and iter = insertion_order] y
  have "get_current ?db [?r] ''t'' (parse_keys ?ka) ?good \<noteq> Inl (ValueError ''id'')"
    by blast
  with u show ?thesis by blast
qed

text \<open>
  A key-map field that is in no key, with an empty alias table: the index is built.
\<close>

theorem keymap_empty_table_counterexample:
  "get_current (mem_db [''id'']) [[(''id'', VInt 1)]] ''t'' (parse_keys (Single (Scalar ''id'')))
     (kw0\<lparr>kw_keymaps := [(''x'', [])]\<rparr>)
   = Inr \<lparr>cur_rows = [[(''id'', VInt 1)]], cur_tups = [([VInt 1], [0])]\<rparr>"
  by (simp add: model_defs)

subsection \<open>The match records\<close>

lemma match_keys_set:
  "match_keys d nn u j keys = Inr ms \<Longrightarrow>
   set ms = {\<lparr>m_key = key, m_current = i, m_upsert = j\<rparr> | key i tup.
               key \<in> set keys \<and> to_tup u key = Inr tup \<and> indexed d tup i \<and>
               \<not> (nn \<and> none_in tup)}"
proof (induction keys arbitrary: ms)
  case Nil
  then show ?case by simp
next
  case (Cons key keys)
  from Cons.prems obtain tup ms' where
    t: "to_tup u key = Inr tup" and r: "match_keys d nn u j keys = Inr ms'" and
    ms: "ms = (case dict_get d tup of None \<Rightarrow> []
               | Some ps \<Rightarrow> if nn \<and> none_in tup then []
                   else map (\<lambda>i. \<lparr>m_key = key, m_current = i, m_upsert = j\<rparr>) ps) @ ms'"
    by (auto split: sum.splits)
  have hd: "set (case dict_get d tup of None \<Rightarrow> []
               | Some ps \<Rightarrow> if nn \<and> none_in tup then []
                   else map (\<lambda>i. \<lparr>m_key = key, m_current = i, m_upsert = j\<rparr>) ps)
        = {\<lparr>m_key = key, m_current = i, m_upsert = j\<rparr> | i.
             indexed d tup i \<and> \<not> (nn \<and> none_in tup)}"
    by (cases "dict_get d tup") (auto simp: indexed_def)
  show ?case
    unfolding ms set_append hd Cons.IH[OF r] using t by auto
qed

lemma match_rows_set:
  "match_rows d nn us n keys = Inr ms \<Longrightarrow>
   set ms = {\<lparr>m_key = key, m_current = i, m_upsert = n + j\<rparr> | key i j tup.
               j < length us \<and> key \<in> set keys \<and> to_tup (us ! j) key = Inr tup \<and>
               indexed d tup i \<and> \<not> (nn \<and> none_in tup)}"
proof (induction us arbitrary: n ms)
  case Nil
  then show ?case by simp
next
  case (Cons u us)
  from Cons.prems obtain ms1 ms2 where
    1: "match_keys d nn u n keys = Inr ms1" and 2: "match_rows d nn us (Suc n) keys = Inr ms2" and
    ms: "ms = ms1 @ ms2"
    by (auto split: sum.splits)
  show ?case (is "_ = ?R")
  proof (rule set_eqI)
    fix m
    show "m \<in> set ms \<longleftrightarrow> m \<in> ?R"
    proof
      assume "m \<in> set ms"
      with ms consider "m \<in> set ms1" | "m \<in> set ms2" by auto
      then show "m \<in> ?R"
      proof cases
        case 1
        with match_keys_set[OF \<open>match_keys d nn u n keys = Inr ms1\<close>] obtain key i tup where
          "m = \<lparr>m_key = key, m_current = i, m_upsert = n\<rparr>" "key \<in> set keys"
          "to_tup u key = Inr tup" "indexed d tup i" "\<not> (nn \<and> none_in tup)"
          by auto
        then have "m = \<lparr>m_key = key, m_current = i, m_upsert = n + 0\<rparr> \<and>
            0 < length (u # us) \<and> key \<in> set keys \<and> to_tup ((u # us) ! 0) key = Inr tup \<and>
            indexed d tup i \<and> \<not> (nn \<and> none_in tup)"
          by simp
        then show ?thesis by blast
      next
        case 2
        with Cons.IH[OF \<open>match_rows d nn us (Suc n) keys = Inr ms2\<close>] obtain key i j tup where
          "m = \<lparr>m_key = key, m_current = i, m_upsert = Suc n + j\<rparr>" "j < length us"
          "key \<in> set keys" "to_tup (us ! j) key = Inr tup" "indexed d tup i"
          "\<not> (nn \<and> none_in tup)"
          by auto
        then have "m = \<lparr>m_key = key, m_current = i, m_upsert = n + Suc j\<rparr> \<and>
            Suc j < length (u # us) \<and> key \<in> set keys \<and>
            to_tup ((u # us) ! Suc j) key = Inr tup \<and>
            indexed d tup i \<and> \<not> (nn \<and> none_in tup)"
          by simp
        then show ?thesis by blast
      qed
    next
      assume "m \<in> ?R"
      then obtain key i j tup where
        m: "m = \<lparr>m_key = key, m_current = i, m_upsert = n + j\<rparr>" and j: "j < length (u # us)" and
        r: "key \<in> set keys" "to_tup ((u # us) ! j) key = Inr tup" "indexed d tup i"
           "\<not> (nn \<and> none_in tup)"
        by blast
      show "m \<in> set ms"
      proof (cases j)
        case 0
        with m r have "m \<in> set ms1"
          unfolding match_keys_set[OF 1] by auto
        with ms show ?thesis by simp
      next
        case (Suc j')
        with m j r have "m \<in> set ms2"
          unfolding Cons.IH[OF 2] by auto
        with ms show ?thesis by simp
      qed
    qed
  qed
qed

text \<open>
  C5. With \<open>nonullkeys\<close> set, a desired row whose key-tuple for a key holds a \<open>None\<close>
  is in no match record of that key.
\<close>

theorem null_key_excluded:
  assumes "get_to_update cur upserts keys kw = Inr ms"
    and "kw_nonullkeys kw" and "j < length upserts"
    and "to_tup (upserts ! j) key = Inr tup" and "none_in tup"
  shows "\<not> list_ex (\<lambda>m. m_upsert m = j \<and> m_key m = key) ms"
proof
  assume "list_ex (\<lambda>m. m_upsert m = j \<and> m_key m = key) ms"
  then obtain m where m: "m \<in> set ms" "m_upsert m = j" "m_key m = key"
    by (auto simp: list_ex_iff)
  from assms(1) have "match_rows (cur_tups cur) (kw_nonullkeys kw) upserts 0 keys = Inr ms"
    by (simp add: get_to_update_def)
  from match_rows_set[OF this] m(1) obtain key' i j' tup' where
    "m = \<lparr>m_key = key', m_current = i, m_upsert = 0 + j'\<rparr>"
    "to_tup (upserts ! j') key' = Inr tup'" "\<not> (kw_nonullkeys kw \<and> none_in tup')"
    by auto
  with m(2,3) assms(2,4,5) show False by simp
qed

theorem null_key_excluded_witness:
  "get_to_update
     \<lparr>cur_rows = [[(''id'', VNone), (''name'', VStr ''a'')]],
      cur_tups = [([VNone], [0]), ([VStr ''a''], [0])]\<rparr>
     [[(''id'', VNone), (''name'', VStr ''a'')]] [[''id''], [''name'']]
     (kw0\<lparr>kw_nonullkeys := True\<rparr> :: unit kwargs)
   = Inr [\<lparr>m_key = [''name''], m_current = 0, m_upsert = 0\<rparr>] \<and>
   \<not> list_ex (\<lambda>m. m_upsert m = 0 \<and> m_key m = [''id''])
        [\<lparr>m_key = [''name''], m_current = 0, m_upsert = 0\<rparr>]"
proof -
  let ?cur = "\<lparr>cur_rows = [[(''id'', VNone), (''name'', VStr ''a'')]],
               cur_tups = [([VNone], [0]), ([VStr ''a''], [0])]\<rparr>"
  let ?ups = "[[(''id'', VNone), (''name'', VStr ''a'')]]"
  let ?kw = "kw0\<lparr>kw_nonullkeys := True\<rparr> :: unit kwargs"
  have g: "get_to_update ?cur ?ups [[''id''], [''name'']] ?kw
           = Inr [\<lparr>m_key = [''name''], m_current = 0, m_upsert = 0\<rparr>]"
    by (simp add: model_defs)
  have n: "kw_nonullkeys ?kw" by simp
  have j: "0 < length ?ups" by simp
  have t: "to_tup (?ups ! 0) [''id''] = Inr [VNone]" by (simp add: getitem_def)
  have v: "none_in [VNone]" by simp
  from null_key_excluded[OF g n j t v] g show ?thesis by simp
qed

text \<open>
  C10. With \<open>nonullkeys\<close> not set, the match records of a desired row \<open>j\<close> and a key are
  exactly the current rows the index holds under the row's key-tuple, whether or not the
  tuple holds a \<open>None\<close>; and every row the store returned whose tuple for a declared key
  is equal to the desired row's tuple is among them. So a desired row with a null key
  matches every current row with the same nulls, as \<open>None == None\<close> in the lookup.
\<close>

theorem null_key_matches:
  assumes dg: "db_get db s (select_query table kw) = Inr rs"
    and gc: "get_current db s table keys kw = Inr cur"
    and gu: "get_to_update cur upserts keys kw = Inr ms"
    and nn: "\<not> kw_nonullkeys kw"
    and j: "j < length upserts" and key: "key \<in> set keys"
    and t: "to_tup (upserts ! j) key = Inr tup"
  shows "(\<lparr>m_key = key, m_current = i, m_upsert = j\<rparr> \<in> set ms \<longleftrightarrow>
            indexed (cur_tups cur) tup i) \<and>
         (i < length rs \<and> key' \<in> set keys \<and> to_tup (rs ! i) key' = Inr tup' \<and> tup_eq tup' tup
            \<longrightarrow> \<lparr>m_key = key, m_current = i, m_upsert = j\<rparr> \<in> set ms)"
proof -
  from gu have "match_rows (cur_tups cur) (kw_nonullkeys kw) upserts 0 keys = Inr ms"
    by (simp add: get_to_update_def)
  note S = match_rows_set[OF this]
  have iff: "\<lparr>m_key = key, m_current = i, m_upsert = j\<rparr> \<in> set ms \<longleftrightarrow>
            indexed (cur_tups cur) tup i" for i
  proof
    assume "\<lparr>m_key = key, m_current = i, m_upsert = j\<rparr> \<in> set ms"
    with S obtain tup' where "to_tup (upserts ! j) key = Inr tup'" "indexed (cur_tups cur) tup' i"
      by auto
    with t show "indexed (cur_tups cur) tup i" by simp
  next
    assume "indexed (cur_tups cur) tup i"
    with nn j key t have
      "\<lparr>m_key = key, m_current = i, m_upsert = 0 + j\<rparr> = \<lparr>m_key = key, m_current = i, m_upsert = 0 + j\<rparr> \<and>
       j < length upserts \<and> key \<in> set keys \<and> to_tup (upserts ! j) key = Inr tup \<and>
       indexed (cur_tups cur) tup i \<and> \<not> (kw_nonullkeys kw \<and> none_in tup)"
      by simp
    then show "\<lparr>m_key = key, m_current = i, m_upsert = j\<rparr> \<in> set ms"
      unfolding S by force
  qed
  from get_current_rows[OF gc] dg have rs: "cur_rows cur = rs" by simp
  have "\<lparr>m_key = key, m_current = i, m_upsert = j\<rparr> \<in> set ms"
    if "i < length rs" "key' \<in> set keys" "to_tup (rs ! i) key' = Inr tup'" "tup_eq tup' tup"
  proof -
    from get_current_literal[OF gc] that rs have "indexed (cur_tups cur) tup' i" by simp
    from indexed_tup_eq[OF that(4) this] iff show ?thesis by simp
  qed
  with iff show ?thesis by blast
qed

theorem null_key_matches_witness:
  "\<exists>ms. get_to_update
           \<lparr>cur_rows = [[(''id'', VNone), (''name'', VStr ''a'')],
                        [(''id'', VInt 2), (''name'', VStr ''b'')],
                        [(''id'', VNone), (''name'', VStr ''c'')]],
            cur_tups = [([VNone], [0, 2]), ([VInt 2], [1])]\<rparr>
           [[(''id'', VNone), (''name'', VStr ''z'')]] [[''id'']] (kw0 :: (row list) kwargs)
         = Inr ms \<and>
       \<lparr>m_key = [''id''], m_current = 0, m_upsert = 0\<rparr> \<in> set ms \<and>
       \<lparr>m_key = [''id''], m_current = 2, m_upsert = 0\<rparr> \<in> set ms \<and>
       \<lparr>m_key = [''id''], m_current = 1, m_upsert = 0\<rparr> \<notin> set ms"
proof -
  let ?db = "mem_db [''id'', ''name'']"
  let ?s = "[[(''id'', VNone), (''name'', VStr ''a'')], [(''id'', VInt 2), (''name'', VStr ''b'')],
             [(''id'', VNone), (''name'', VStr ''c'')]]"
  let ?kw = "kw0 :: (row list) kwargs"
  let ?cur = "\<lparr>cur_rows = ?s, cur_tups = [([VNone], [0, 2]), ([VInt 2], [1])]\<rparr>"
  let ?ups = "[[(''id'', VNone), (''name'', VStr ''z'')]]"
  let ?ms = "[\<lparr>m_key = [''id''], m_current = 0, m_upsert = 0\<rparr>,
              \<lparr>m_key = [''id''], m_current = 2, m_upsert = 0\<rparr>]"
  have dg: "db_get ?db ?s (select_query ''t'' ?kw) = Inr ?s"
    by (simp add: mem_db_def)
  have gc: "get_current ?db ?s ''t'' [[''id'']] ?kw = Inr ?cur"
    by (simp add: model_defs)
  have gu: "get_to_update ?cur ?ups [[''id'']] ?kw = Inr ?ms"
    by (simp add: model_defs)
  have nn: "\<not> kw_nonullkeys ?kw" by (simp add: kw0_def)
  have j: "0 < length ?ups" by simp
  have k: "[''id''] \<in> set [[''id'']]" by simp
  have t: "to_tup (?ups ! 0) [''id''] = Inr [VNone]" by (simp add: getitem_def)
  note T = null_key_matches[OF dg gc gu nn j k t]
  have c0: "0 < length ?s \<and> [''id''] \<in> set [[''id'']] \<and> to_tup (?s ! 0) [''id''] = Inr [VNone] \<and>
            tup_eq [VNone] [VNone]"
    by (simp add: getitem_def)
  have c2: "2 < length ?s \<and> [''id''] \<in> set [[''id'']] \<and> to_tup (?s ! 2) [''id''] = Inr [VNone] \<and>
            tup_eq [VNone] [VNone]"
    by (simp add: getitem_def)
  from T[of 0 "[''id'']" "[VNone]"] c0
  have m0: "\<lparr>m_key = [''id''], m_current = 0, m_upsert = 0\<rparr> \<in> set ?ms" by blast
  from T[of 2 "[''id'']" "[VNone]"] c2
  have m2: "\<lparr>m_key = [''id''], m_current = 2, m_upsert = 0\<rparr> \<in> set ?ms" by blast
  have "\<not> indexed (cur_tups ?cur) [VNone] 1" by (simp add: indexed_def)
  with T[of 1 "[''id'']" "[VNone]"]
  have m1: "\<lparr>m_key = [''id''], m_current = 1, m_upsert = 0\<rparr> \<notin> set ?ms" by blast
  from gu m0 m2 m1 show ?thesis by blast
qed

subsection \<open>Positions are in range\<close>

lemma indexed_Nil [simp]: "\<not> indexed [] t j"
  by (simp add: indexed_def)

lemma indexed_dict_append_cases:
  "indexed (dict_append d t i) t' j \<Longrightarrow> indexed d t' j \<or> j = i"
  by (induction d t i rule: dict_append.induct) (auto simp: indexed_def split: if_splits)

lemma indexed_add_tups_cases:
  "indexed (add_tups ts i d) t' j \<Longrightarrow> indexed d t' j \<or> j = i"
proof (induction ts arbitrary: d)
  case Nil
  then show ?case by simp
next
  case (Cons t ts)
  from Cons.IH[of "dict_append d t i"] Cons.prems
  have "indexed (dict_append d t i) t' j \<or> j = i" by simp
  then show ?case using indexed_dict_append_cases by blast
qed

lemma index_keys_cases:
  "index_keys r i keys kms d = Inr d' \<Longrightarrow> indexed d' t j \<Longrightarrow> indexed d t j \<or> j = i"
proof (induction keys arbitrary: d)
  case Nil
  then show ?case by simp
next
  case (Cons key keys)
  from Cons.prems(1) obtain tups where
    "index_keys r i keys kms (add_tups tups i d) = Inr d'"
    by (auto split: sum.splits)
  from Cons.IH[OF this Cons.prems(2)] show ?case
    using indexed_add_tups_cases by blast
qed

lemma index_rows_cases:
  "index_rows rs n keys kms d = Inr d' \<Longrightarrow> indexed d' t j \<Longrightarrow>
   indexed d t j \<or> (n \<le> j \<and> j < n + length rs)"
proof (induction rs arbitrary: n d)
  case Nil
  then show ?case by simp
next
  case (Cons r rs)
  from Cons.prems(1) obtain d1 where
    1: "index_keys r n keys kms d = Inr d1" and 2: "index_rows rs (Suc n) keys kms d1 = Inr d'"
    by (auto split: sum.splits)
  from Cons.IH[OF 2 Cons.prems(2)] have "indexed d1 t j \<or> (Suc n \<le> j \<and> j < Suc n + length rs)" .
  then show ?case
  proof
    assume "indexed d1 t j"
    from index_keys_cases[OF 1 this] show ?thesis by auto
  next
    assume "Suc n \<le> j \<and> j < Suc n + length rs"
    then show ?thesis by simp
  qed
qed

lemma get_current_indexed_bound:
  assumes "get_current db s table keys kw = Inr cur" and "indexed (cur_tups cur) t j"
  shows "j < length (cur_rows cur)"
proof -
  from assms(1) obtain rs d where
    rs: "cur_rows cur = rs" "cur_tups cur = d" and
    ix: "index_rows rs 0 keys (kw_keymaps kw) [] = Inr d"
    by (auto simp: get_current_def split: sum.splits)
  from index_rows_cases[OF ix] assms(2) rs show ?thesis by auto
qed

lemma get_to_update_range:
  assumes "get_current db s table keys kw = Inr cur"
    and "get_to_update cur upserts keys kw = Inr ms" and "m \<in> set ms"
  shows "m_current m < length (cur_rows cur) \<and> m_upsert m < length upserts \<and> m_key m \<in> set keys"
proof -
  from assms(2) have "match_rows (cur_tups cur) (kw_nonullkeys kw) upserts 0 keys = Inr ms"
    by (simp add: get_to_update_def)
  from match_rows_set[OF this] assms(3) obtain key i j tup where
    "m = \<lparr>m_key = key, m_current = i, m_upsert = 0 + j\<rparr>" "j < length upserts" "key \<in> set keys"
    "indexed (cur_tups cur) tup i"
    by auto
  with get_current_indexed_bound[OF assms(1)] show ?thesis by auto
qed

subsection \<open>What the update of a record leaves unchanged\<close>

lemma emit_simps [simp]:
  "st_store (emit evs st) = st_store st"
  "st_rows (emit evs st) = st_rows st"
  "st_upserts (emit evs st) = st_upserts st"
  "st_out (emit evs st) = st_out st @ evs"
  by (simp_all add: emit_def)

lemma default_row_frame:
  "default_row kw j st = (st1, err) \<Longrightarrow>
   st_store st1 = st_store st \<and> st_rows st1 = st_rows st \<and> st_out st1 = st_out st \<and>
   length (st_upserts st1) = length (st_upserts st)"
  by (auto simp: default_row_def split: prod.splits)

lemma run_stmt_frame:
  "run_stmt db kw q a st = (st1, err) \<Longrightarrow>
   st_rows st1 = st_rows st \<and> st_upserts st1 = st_upserts st"
  by (auto simp: run_stmt_def split: if_splits prod.splits option.splits)

lemma update_one_frame:
  assumes "update_one db table kw flds u st = (st', err)"
  shows "st_rows st' = st_rows st \<and> length (st_upserts st') = length (st_upserts st)"
proof (cases "m_current u < length (st_rows st) \<and> m_upsert u < length (st_upserts st)")
  case False
  with assms show ?thesis by (auto simp: update_one_def)
next
  case True
  obtain st1 e1 where d: "default_row kw (m_upsert u) st = (st1, e1)"
    by (cases "default_row kw (m_upsert u) st")
  note f = default_row_frame[OF d]
  show ?thesis
  proof (cases e1)
    case (Some e)
    with assms True d f show ?thesis by (auto simp: update_one_def)
  next
    case None
    with assms True d f show ?thesis
      by (auto simp: update_one_def Let_def split: sum.splits prod.splits if_splits
          dest!: run_stmt_frame)
  qed
qed

lemma updates_loop_frame:
  "updates_loop db table kw flds ms st = (st', err) \<Longrightarrow>
   st_rows st' = st_rows st \<and> length (st_upserts st') = length (st_upserts st)"
proof (induction ms arbitrary: st)
  case Nil
  then show ?case by simp
next
  case (Cons u ms)
  obtain st1 e1 where o: "update_one db table kw flds u st = (st1, e1)"
    by (cases "update_one db table kw flds u st")
  note f = update_one_frame[OF o]
  show ?case
  proof (cases e1)
    case (Some e)
    with Cons.prems o f show ?thesis by auto
  next
    case None
    with Cons.prems o have "updates_loop db table kw flds ms st1 = (st', err)" by simp
    from Cons.IH[OF this] f show ?thesis by simp
  qed
qed

subsection \<open>Type mismatch\<close>

lemma updates_loop_append:
  "updates_loop db table kw flds (xs @ ys) st =
     (case updates_loop db table kw flds xs st of
        (st', Some e) \<Rightarrow> (st', Some e)
      | (st', None) \<Rightarrow> updates_loop db table kw flds ys st')"
  by (induction xs arbitrary: st) (auto split: prod.splits option.splits)

lemma diff_fields_append:
  "diff_fields kw c u (xs @ ys) acc =
     (case diff_fields kw c u xs acc of
        Inl e \<Rightarrow> Inl e
      | Inr acc' \<Rightarrow> diff_fields kw c u ys acc')"
  by (induction xs arbitrary: acc) (auto simp: Let_def split: sum.splits)

lemma diff_fields_mismatch:
  "type_mismatch c u f \<Longrightarrow>
   diff_fields kw c u (f # fs) acc = Inl (TypeError f (get_or_none u f) (get_or_none c f))"
  by (auto simp: type_mismatch_def getitem_def get_or_none_def Let_def split: option.splits)

text \<open>
  C2. The match record \<open>u\<close> is reached after the records before it were processed without
  an exception, its defaults are set, and the loop over the non-ignored fields comes to a
  field \<open>f\<close> whose current and desired values are both non-null and of different types.
  Then the whole invocation ends with the \<open>TypeError\<close> that names \<open>f\<close>, the desired and
  the current value; nothing was printed or sent to the store for this record, and no later
  record, insert or delete is processed.
\<close>

theorem type_mismatch_fatal:
  assumes gc: "get_current db s table (parse_keys ka) kw = Inr cur"
    and gu: "get_to_update cur upserts (parse_keys ka) kw = Inr (pre @ u # rest)"
    and gf: "db_get_fields db s table = Inr allflds"
    and lp: "updates_loop db table kw (filter (\<lambda>x. x \<notin> set (kw_ignore kw)) allflds) pre
               ((init_state s upserts)\<lparr>st_rows := cur_rows cur\<rparr>) = (st, None)"
    and df: "default_row kw (m_upsert u) st = (st1, None)"
    and fl: "filter (\<lambda>x. x \<notin> set (kw_ignore kw)) allflds = fs @ f # fs'"
    and ok: "diff_fields kw (cur_rows cur ! m_current u) (st_upserts st1 ! m_upsert u) fs ([], [])
               = Inr acc"
    and mm: "type_mismatch (cur_rows cur ! m_current u) (st_upserts st1 ! m_upsert u) f"
  shows "upsert iter db s table ka upserts kw =
           (st1, Inl (TypeError f (get_or_none (st_upserts st1 ! m_upsert u) f)
                                  (get_or_none (cur_rows cur ! m_current u) f))) \<and>
         st_out st1 = st_out st \<and> st_store st1 = st_store st"
proof -
  let ?flds = "filter (\<lambda>x. x \<notin> set (kw_ignore kw)) allflds"
  let ?st0 = "(init_state s upserts)\<lparr>st_rows := cur_rows cur\<rparr>"
  let ?e = "TypeError f (get_or_none (st_upserts st1 ! m_upsert u) f)
                        (get_or_none (cur_rows cur ! m_current u) f)"
  from get_to_update_range[OF gc gu, of u]
  have rng: "m_current u < length (cur_rows cur)" "m_upsert u < length upserts" by auto
  from updates_loop_frame[OF lp]
  have fr: "st_rows st = cur_rows cur" "length (st_upserts st) = length upserts"
    by (simp_all add: init_state_def)
  note d = default_row_frame[OF df]
  have "diff_fields kw (cur_rows cur ! m_current u) (st_upserts st1 ! m_upsert u) ?flds ([], [])
          = Inl ?e"
    unfolding fl diff_fields_append ok using diff_fields_mismatch[OF mm] by simp
  with rng fr d df have one: "update_one db table kw ?flds u st = (st1, Some ?e)"
    by (simp add: update_one_def)
  have "updates_loop db table kw ?flds (pre @ u # rest) ?st0 = (st1, Some ?e)"
    unfolding updates_loop_append lp using one by simp
  with gf have "do_updates db table (pre @ u # rest) kw ?st0 = (st1, Some ?e)"
    by (simp add: do_updates_def init_state_def)
  with gc gu have "upsert iter db s table ka upserts kw = (st1, Inl ?e)"
    by (simp add: upsert_def Let_def)
  with d show ?thesis by simp
qed

theorem type_mismatch_fatal_witness:
  "upsert insertion_order (mem_db [''id'', ''name'']) [[(''id'', VInt 1), (''name'', VStr ''5'')]] ''t''
     (Single (Scalar ''id'')) [[(''id'', VInt 1), (''name'', VInt 5)]] kw0
   = (\<lparr>st_store = [[(''id'', VInt 1), (''name'', VStr ''5'')]],
       st_rows = [[(''id'', VInt 1), (''name'', VStr ''5'')]],
       st_upserts = [[(''id'', VInt 1), (''name'', VInt 5)]], st_out = []\<rparr>,
      Inl (TypeError ''name'' (VInt 5) (VStr ''5'')))"
proof -
  let ?db = "mem_db [''id'', ''name'']"
  let ?s = "[[(''id'', VInt 1), (''name'', VStr ''5'')]]"
  let ?ups = "[[(''id'', VInt 1), (''name'', VInt 5)]]"
  let ?ka = "Single (Scalar ''id'')"
  let ?kw = "kw0 :: (row list) kwargs"
  let ?cur = "\<lparr>cur_rows = ?s, cur_tups = [([VInt 1], [0])]\<rparr>"
  let ?u = "\<lparr>m_key = [''id''], m_current = 0, m_upsert = 0\<rparr>"
  let ?st = "\<lparr>st_store = ?s, st_rows = ?s, st_upserts = ?ups, st_out = []\<rparr>"
  have gc: "get_current ?db ?s ''t'' (parse_keys ?ka) ?kw = Inr ?cur"
    by (simp add: model_defs)
  have gu: "get_to_update ?cur ?ups (parse_keys ?ka) ?kw = Inr ([] @ ?u # [])"
    by (simp add: model_defs)
  have gf: "db_get_fields ?db ?s ''t'' = Inr [''id'', ''name'']"
    by (simp add: mem_db_def)
  have lp: "updates_loop ?db ''t'' ?kw (filter (\<lambda>x. x \<notin> set (kw_ignore ?kw)) [''id'', ''name'']) []
              ((init_state ?s ?ups)\<lparr>st_rows := cur_rows ?cur\<rparr>) = (?st, None)"
    by (simp add: init_state_def)
  have df: "default_row ?kw (m_upsert ?u) ?st = (?st, None)"
    by (simp add: default_row_def apply_defaults_def kw0_def)
  have fl: "filter (\<lambda>x. x \<notin> set (kw_ignore ?kw)) [''id'', ''name''] = [''id''] @ ''name'' # []"
    by (simp add: kw0_def)
  have ok: "diff_fields ?kw (cur_rows ?cur ! m_current ?u) (st_upserts ?st ! m_upsert ?u) [''id'']
              ([], []) = Inr ([], [])"
    by (simp add: getitem_def get_or_none_def kw0_def)
  have mm: "type_mismatch (cur_rows ?cur ! m_current ?u) (st_upserts ?st ! m_upsert ?u) ''name''"
    by (simp add: type_mismatch_def)
  from type_mismatch_fatal[OF gc gu gf lp df fl ok mm] show ?thesis
    by (simp add: get_or_none_def)
qed

subsection \<open>The change set and the statement\<close>

lemma diff_fields_agrees:
  "list_all (agrees kw c u) flds \<Longrightarrow> diff_fields kw c u flds acc = Inr acc"
proof (induction flds)
  case Nil
  then show ?case by simp
next
  case (Cons f flds)
  then have a: "agrees kw c u f" and r: "diff_fields kw c u flds acc = Inr acc" by simp_all
  from a obtain cv where cv: "map_of c f = Some cv"
    by (auto simp: agrees_def split: option.splits)
  show ?case
  proof (cases "map_of u f")
    case None
    with a cv r show ?thesis
      by (auto simp: agrees_def getitem_def get_or_none_def Let_def py_eq_refl)
  next
    case (Some n)
    with a cv have "n = cv" by (simp add: agrees_def)
    with Some cv r show ?thesis
      by (simp add: getitem_def get_or_none_def Let_def py_eq_refl)
  qed
qed

lemma to_tup_has_fields: "to_tup r key = Inr tup \<Longrightarrow> has_fields r key"
  by (induction key arbitrary: tup)
     (auto simp: has_fields_def getitem_def split: option.splits sum.splits)

lemma key_preds_has_fields:
  "has_fields r key \<Longrightarrow>
   key_preds r key = Inr (map (\<lambda>f. pred f (get_or_none r f)) key, map (get_or_none r) key)"
  by (induction key) (auto simp: has_fields_def getitem_def get_or_none_def split: option.splits)

lemma get_current_has_fields:
  assumes "get_current db s table keys kw = Inr cur"
    and "i < length (cur_rows cur)" and "key \<in> set keys"
  shows "has_fields (cur_rows cur ! i) key"
proof -
  from assms(1) obtain rs d where
    rs: "cur_rows cur = rs" and ix: "index_rows rs 0 keys (kw_keymaps kw) [] = Inr d"
    by (auto simp: get_current_def split: sum.splits)
  from index_rows_mem[OF ix] assms(2,3) rs obtain tup where "to_tup (rs ! i) key = Inr tup"
    by fastforce
  from to_tup_has_fields[OF this] rs show ?thesis by simp
qed

lemma run_stmt_out:
  "\<exists>tl. st_out (fst (run_stmt db kw q a st)) =
          st_out st @ (if kw_dryrun kw then Print_stmt q a else Sql q a) # tl \<and>
        (tl = [] \<or> tl = [Print_exc UniqueViolation])"
  by (auto simp: run_stmt_def split: prod.splits option.splits)

text \<open>
  C6. For a match record of the invocation with a non-empty change set, the statement
  printed (dry-run) or sent to \<open>db.sql\<close> is \<open>UPDATE table SET sets WHERE wheres\<close>, where
  \<open>wheres\<close> is the filter clause, if one is given, followed by one predicate for each
  field of the record's key, joined by \<open>AND\<close>: \<open>field IS %s\<close> when the current row's
  value is \<open>None\<close> and \<open>field = %s\<close> otherwise; the arguments after those of the change
  set are the current row's values of the key fields.
\<close>

theorem update_where_clause:
  assumes gc: "get_current db s table keys kw = Inr cur"
    and gu: "get_to_update cur upserts keys kw = Inr ms" and u: "u \<in> set ms"
    and st: "st_rows st = cur_rows cur" "length (st_upserts st) = length upserts"
    and df: "default_row kw (m_upsert u) st = (st1, None)"
    and d: "diff_fields kw (cur_rows cur ! m_current u) (st_upserts st1 ! m_upsert u) flds ([], [])
              = Inr (sets, args)"
    and ne: "sets \<noteq> []"
  shows "\<exists>tl. st_out (fst (update_one db table kw flds u st)) =
           st_out st @
           (if kw_dryrun kw then Print_stmt else Sql)
             (''UPDATE '' @ table @ '' SET '' @ join '', '' sets @ '' WHERE '' @
              join '' AND ''
                ((if has_where kw then [where_str kw] else []) @
                 map (\<lambda>f. f @ '' '' @
                        (if get_or_none (cur_rows cur ! m_current u) f = VNone then ''IS'' else ''='') @
                        '' %s'')
                   (m_key u)))
             (args @ map (get_or_none (cur_rows cur ! m_current u)) (m_key u)) # tl"
proof -
  let ?c = "cur_rows cur ! m_current u"
  from get_to_update_range[OF gc gu u]
  have rng: "m_current u < length (cur_rows cur)" "m_upsert u < length upserts"
    "m_key u \<in> set keys" by auto
  from get_current_has_fields[OF gc rng(1,3)] have hf: "has_fields ?c (m_key u)" .
  note fr = default_row_frame[OF df]
  let ?q = "update_query table sets
              ((if has_where kw then [where_str kw] else []) @
               map (\<lambda>f. pred f (get_or_none ?c f)) (m_key u))"
  let ?a = "args @ map (get_or_none ?c) (m_key u)"
  from rng st df d ne fr key_preds_has_fields[OF hf]
  have one: "update_one db table kw flds u st = run_stmt db kw ?q ?a st1"
    by (simp add: update_one_def Let_def)
  from run_stmt_out[of db kw ?q ?a st1] fr obtain tl where
    "st_out (fst (run_stmt db kw ?q ?a st1)) =
       st_out st @ (if kw_dryrun kw then Print_stmt ?q ?a else Sql ?q ?a) # tl"
    by auto
  with one show ?thesis
    by (auto simp: update_query_def pred_def)
qed

theorem update_where_clause_witness:
  "st_out (fst (update_one (mem_db [''id'', ''email'', ''name'']) ''t''
       (kw0\<lparr>kw_where := Some ''active''\<rparr>) [''id'', ''email'', ''name'']
       \<lparr>m_key = [''id'', ''email''], m_current = 0, m_upsert = 0\<rparr>
       \<lparr>st_store = [[(''id'', VInt 1), (''email'', VNone), (''name'', VStr ''a'')]],
        st_rows = [[(''id'', VInt 1), (''email'', VNone), (''name'', VStr ''a'')]],
        st_upserts = [[(''id'', VInt 1), (''email'', VNone), (''name'', VStr ''b'')]],
        st_out = []\<rparr>))
   = [Sql ''UPDATE t SET name = %s WHERE active AND id = %s AND email IS %s''
        [VStr ''b'', VInt 1, VNone]]"
proof -
  let ?db = "mem_db [''id'', ''email'', ''name'']"
  let ?s = "[[(''id'', VInt 1), (''email'', VNone), (''name'', VStr ''a'')]]"
  let ?ups = "[[(''id'', VInt 1), (''email'', VNone), (''name'', VStr ''b'')]]"
  let ?kw = "kw0\<lparr>kw_where := Some ''active''\<rparr> :: (row list) kwargs"
  let ?cur = "\<lparr>cur_rows = ?s, cur_tups = [([VInt 1, VNone], [0])]\<rparr>"
  let ?u = "\<lparr>m_key = [''id'', ''email''], m_current = 0, m_upsert = 0\<rparr>"
  let ?st = "\<lparr>st_store = ?s, st_rows = ?s, st_upserts = ?ups, st_out = []\<rparr>"
  have gc: "get_current ?db ?s ''t'' [[''id'', ''email'']] ?kw = Inr ?cur"
    by (simp add: model_defs)
  have gu: "get_to_update ?cur ?ups [[''id'', ''email'']] ?kw = Inr [?u]"
    by (simp add: model_defs)
  have u: "?u \<in> set [?u]" by simp
  have r: "st_rows ?st = cur_rows ?cur" by simp
  have l: "length (st_upserts ?st) = length ?ups" by simp
  have df: "default_row ?kw (m_upsert ?u) ?st = (?st, None)"
    by (simp add: default_row_def apply_defaults_def kw0_def)
  have d: "diff_fields ?kw (cur_rows ?cur ! m_current ?u) (st_upserts ?st ! m_upsert ?u)
             [''id'', ''email'', ''name''] ([], []) = Inr ([''name = %s''], [VStr ''b''])"
    by (simp add: getitem_def get_or_none_def kw0_def)
  have ne: "[''name = %s''] \<noteq> []" by simp
  from update_where_clause[OF gc gu u r l df d ne]
  show ?thesis
    by (simp add: model_defs)
qed

subsection \<open>The snapshot is only read\<close>

lemma before_hook_frame:
  "before_hook kw r st = (st', err) \<Longrightarrow>
   st_rows st' = st_rows st \<and> st_upserts st' = st_upserts st"
  by (auto simp: before_hook_def split: option.splits prod.splits sum.splits if_splits)

lemma run_insert_frame:
  "run_insert db table kw r st = (st', err) \<Longrightarrow>
   st_rows st' = st_rows st \<and> st_upserts st' = st_upserts st"
  by (auto simp: run_insert_def split: option.splits prod.splits if_splits)

lemma default_row_nth:
  "default_row kw j st = (st1, err) \<Longrightarrow> k \<noteq> j \<Longrightarrow> st_upserts st1 ! k = st_upserts st ! k"
  by (auto simp: default_row_def split: prod.splits)

lemma insert_one_frame:
  assumes "insert_one db table kw i st = (st', err)"
  shows "st_rows st' = st_rows st \<and> length (st_upserts st') = length (st_upserts st) \<and>
         (\<forall>k. k \<noteq> i \<longrightarrow> st_upserts st' ! k = st_upserts st ! k)"
proof (cases "i < length (st_upserts st)")
  case False
  with assms show ?thesis by (auto simp: insert_one_def)
next
  case True
  obtain st1 e1 where d: "default_row kw i st = (st1, e1)"
    by (cases "default_row kw i st")
  note f1 = default_row_frame[OF d] default_row_nth[OF d]
  show ?thesis
  proof (cases e1)
    case (Some e)
    with assms True d f1 show ?thesis by (auto simp: insert_one_def)
  next
    case None
    obtain st2 e2 where b: "before_hook kw (st_upserts st1 ! i) st1 = (st2, e2)"
      by (cases "before_hook kw (st_upserts st1 ! i) st1")
    note f2 = before_hook_frame[OF b]
    show ?thesis
    proof (cases e2)
      case (Some e)
      with assms True d None b f1 f2 show ?thesis by (auto simp: insert_one_def)
    next
      case n2: None
      with assms True d None b
      have "run_insert db table kw (st_upserts st2 ! i) st2 = (st', err)"
        by (simp add: insert_one_def)
      from run_insert_frame[OF this] f1 f2 show ?thesis by auto
    qed
  qed
qed

lemma do_inserts_frame:
  "do_inserts db table js kw st = (st', err) \<Longrightarrow>
   st_rows st' = st_rows st \<and> length (st_upserts st') = length (st_upserts st) \<and>
   (\<forall>k. k \<notin> set js \<longrightarrow> st_upserts st' ! k = st_upserts st ! k)"
proof (induction js arbitrary: st)
  case Nil
  then show ?case by simp
next
  case (Cons i js)
  obtain st1 e1 where o: "insert_one db table kw i st = (st1, e1)"
    by (cases "insert_one db table kw i st")
  note f = insert_one_frame[OF o]
  show ?case
  proof (cases e1)
    case (Some e)
    with Cons.prems o f show ?thesis by auto
  next
    case None
    with Cons.prems o have "do_inserts db table js kw st1 = (st', err)" by simp
    from Cons.IH[OF this] f show ?thesis by auto
  qed
qed

lemma run_delete_frame:
  "run_delete db kw q a st = (st', err) \<Longrightarrow>
   st_rows st' = st_rows st \<and> st_upserts st' = st_upserts st"
  by (auto simp: run_delete_def split: prod.splits if_splits)

lemma delete_keys_frame:
  "delete_keys db table kw i keys st = (st', err) \<Longrightarrow>
   st_rows st' = st_rows st \<and> st_upserts st' = st_upserts st"
proof (induction keys arbitrary: st)
  case Nil
  then show ?case by simp
next
  case (Cons key keys)
  show ?case
  proof (cases "i < length (st_rows st)")
    case False
    with Cons.prems show ?thesis by simp
  next
    case True
    show ?thesis
    proof (cases "to_tup (st_rows st ! i) key")
      case (Inl e)
      with Cons.prems True show ?thesis by (simp add: Let_def)
    next
      case tt: (Inr tup)
      show ?thesis
      proof (cases "key_preds (st_rows st ! i) key")
        case (Inl e)
        with Cons.prems True tt show ?thesis by (simp add: Let_def)
      next
        case (Inr p)
        obtain ws as where p: "p = (ws, as)" by (cases p)
        obtain st1 e1 where r: "run_delete db kw
            (delete_query table ((if has_where kw then [where_str kw] else [''1=1'']) @ ws))
            as st = (st1, e1)"
          by (cases "run_delete db kw
            (delete_query table ((if has_where kw then [where_str kw] else [''1=1'']) @ ws))
            as st")
        note f = run_delete_frame[OF r]
        show ?thesis
        proof (cases e1)
          case (Some e)
          with Cons.prems True tt Inr p r f show ?thesis by (simp add: Let_def)
        next
          case None
          with Cons.prems True tt Inr p r
          have "delete_keys db table kw i keys st1 = (st', err)" by (simp add: Let_def)
          from Cons.IH[OF this] f show ?thesis by simp
        qed
      qed
    qed
  qed
qed

lemma do_deletes_frame:
  "do_deletes db table keys js kw st = (st', err) \<Longrightarrow>
   st_rows st' = st_rows st \<and> st_upserts st' = st_upserts st"
proof (induction js arbitrary: st)
  case Nil
  then show ?case by simp
next
  case (Cons i js)
  obtain st1 e1 where o: "delete_keys db table kw i keys st = (st1, e1)"
    by (cases "delete_keys db table kw i keys st")
  note f = delete_keys_frame[OF o]
  show ?case
  proof (cases e1)
    case (Some e)
    with Cons.prems o f show ?thesis by auto
  next
    case None
    with Cons.prems o have "do_deletes db table keys js kw st1 = (st', err)" by simp
    from Cons.IH[OF this] f show ?thesis by simp
  qed
qed

lemma do_updates_frame:
  "do_updates db table ms kw st = (st', err) \<Longrightarrow>
   st_rows st' = st_rows st \<and> length (st_upserts st') = length (st_upserts st)"
  by (auto simp: do_updates_def split: sum.splits dest: updates_loop_frame)

lemma upsert_rows:
  assumes "get_current db s table (parse_keys ka) kw = Inr cur"
  shows "st_rows (fst (upsert iter db s table ka upserts kw)) = cur_rows cur"
proof -
  let ?keys = "parse_keys ka"
  let ?st1 = "(init_state s upserts)\<lparr>st_rows := cur_rows cur\<rparr>"
  show ?thesis
  proof (cases "get_to_update cur upserts ?keys kw")
    case (Inl e)
    with assms show ?thesis by (simp add: upsert_def Let_def)
  next
    case gu: (Inr ms)
    obtain st2 e2 where du: "do_updates db table ms kw ?st1 = (st2, e2)"
      by (cases "do_updates db table ms kw ?st1")
    from do_updates_frame[OF du] have r2: "st_rows st2 = cur_rows cur" by simp
    show ?thesis
    proof (cases e2)
      case (Some e)
      with assms gu du r2 show ?thesis by (simp add: upsert_def Let_def)
    next
      case None
      let ?un = "get_unmatched iter ms (st_rows st2) (st_upserts st2)"
      obtain st3 e3 where di:
        "(if \<not> kw_noinsert kw then do_inserts db table (un_upserts ?un) kw st2 else (st2, None))
           = (st3, e3)"
        by (cases "if \<not> kw_noinsert kw then do_inserts db table (un_upserts ?un) kw st2
                   else (st2, None)")
      have r3: "st_rows st3 = cur_rows cur"
      proof (cases "kw_noinsert kw")
        case True
        with di r2 show ?thesis by simp
      next
        case False
        with di have "do_inserts db table (un_upserts ?un) kw st2 = (st3, e3)" by simp
        from do_inserts_frame[OF this] r2 show ?thesis by simp
      qed
      show ?thesis
      proof (cases e3)
        case (Some e)
        with assms gu du \<open>e2 = None\<close> di r3 show ?thesis by (simp add: upsert_def Let_def)
      next
        case n3: None
        obtain st4 e4 where dd:
          "(if kw_delete kw then do_deletes db table ?keys (un_current ?un) kw st3 else (st3, None))
             = (st4, e4)"
          by (cases "if kw_delete kw then do_deletes db table ?keys (un_current ?un) kw st3
                     else (st3, None)")
        have r4: "st_rows st4 = cur_rows cur"
        proof (cases "kw_delete kw")
          case False
          with dd r3 show ?thesis by simp
        next
          case True
          with dd have "do_deletes db table ?keys (un_current ?un) kw st3 = (st4, e4)" by simp
          from do_deletes_frame[OF this] r3 show ?thesis by simp
        qed
        from assms gu du \<open>e2 = None\<close> di n3 dd r4 show ?thesis
          by (cases e4) (simp_all add: upsert_def Let_def)
      qed
    qed
  qed
qed

text \<open>
  C8, as it holds of the code. The update phase never writes to the rows of the snapshot,
  and neither does any other phase: at the end of the invocation they are the rows
  \<open>get_current\<close> read. Every diff and every where-clause of a later match record for the
  same current row therefore uses the values read at the start.
\<close>

theorem snapshot_not_written:
  "st_rows (fst (do_updates db table ms kw st)) = st_rows st \<and>
   (get_current db s table (parse_keys ka) kw = Inr cur \<longrightarrow>
      st_rows (fst (upsert iter db s table ka upserts kw)) = cur_rows cur)"
proof -
  obtain st' err where "do_updates db table ms kw st = (st', err)"
    by (cases "do_updates db table ms kw st")
  from do_updates_frame[OF this] this have "st_rows (fst (do_updates db table ms kw st)) = st_rows st"
    by simp
  then show ?thesis by (simp add: upsert_rows)
qed

theorem snapshot_not_written_witness:
  "st_rows (fst (upsert insertion_order (mem_db [''id'', ''name'']) [[(''id'', VInt 1), (''name'', VStr ''a'')]] ''t''
       (KeyList [Scalar ''id'', Scalar ''name''])
       [[(''id'', VInt 1), (''name'', VStr ''b'')], [(''id'', VInt 2), (''name'', VStr ''a'')]] kw0))
   = [[(''id'', VInt 1), (''name'', VStr ''a'')]]"
proof -
  let ?db = "mem_db [''id'', ''name'']"
  let ?s = "[[(''id'', VInt 1), (''name'', VStr ''a'')]]"
  let ?ka = "KeyList [Scalar ''id'', Scalar ''name'']"
  let ?kw = "kw0 :: (row list) kwargs"
  let ?cur = "\<lparr>cur_rows = ?s, cur_tups = [([VInt 1], [0]), ([VStr ''a''], [0])]\<rparr>"
  have gc: "get_current ?db ?s ''t'' (parse_keys ?ka) ?kw = Inr ?cur"
    by (simp add: model_defs)
  from snapshot_not_written[where iter = insertion_order and db = ?db and s = ?s and table = "''t''" and ka = ?ka
      and kw = ?kw and cur = ?cur] gc
  show ?thesis by simp
qed

text \<open>
  One current row matched twice. The first update is executed and sets \<open>name\<close> to
  \<open>b\<close>; the second still finds \<open>name\<close> unchanged and scopes its statement by the old
  value \<open>a\<close>.
\<close>

theorem stale_snapshot_counterexample:
  "st_out (fst (upsert insertion_order (mem_db [''id'', ''name'']) [[(''id'', VInt 1), (''name'', VStr ''a'')]] ''t''
       (KeyList [Scalar ''id'', Scalar ''name''])
       [[(''id'', VInt 1), (''name'', VStr ''b'')], [(''id'', VInt 2), (''name'', VStr ''a'')]] kw0))
   = [Sql ''UPDATE t SET name = %s WHERE id = %s'' [VStr ''b'', VInt 1],
      Sql ''UPDATE t SET id = %s WHERE name = %s'' [VInt 2, VStr ''a'']]"
  by (simp add: model_defs)

subsection \<open>Updates that change nothing\<close>

lemma get_unmatched_lengths:
  "length rs = length rs' \<Longrightarrow> length us = length us' \<Longrightarrow>
   get_unmatched iter ms rs us = get_unmatched iter ms rs' us'"
  by (simp add: get_unmatched_def)

lemma upsert_returns:
  assumes gc: "get_current db s table (parse_keys ka) kw = Inr cur"
    and gu: "get_to_update cur upserts (parse_keys ka) kw = Inr ms"
    and du: "do_updates db table ms kw ((init_state s upserts)\<lparr>st_rows := cur_rows cur\<rparr>)
               = (st2, None)"
    and di: "(if \<not> kw_noinsert kw
              then do_inserts db table
                     (un_upserts (get_unmatched iter ms (st_rows st2) (st_upserts st2))) kw st2
              else (st2, None)) = (st3, None)"
    and dd: "(if kw_delete kw
              then do_deletes db table (parse_keys ka)
                     (un_current (get_unmatched iter ms (st_rows st2) (st_upserts st2))) kw st3
              else (st3, None)) = (st4, None)"
  shows "upsert iter db s table ka upserts kw =
           (st4, Inr (if kw_get_unmatched kw
                      then RRows (map (\<lambda>i. st_upserts st4 ! i)
                             (un_upserts (get_unmatched iter ms (st_rows st2) (st_upserts st2))))
                      else RTrue))"
  unfolding upsert_def Let_def gc gu sum.case du prod.case option.case di dd
  by (rule refl)

lemma update_one_noop:
  assumes "m_current u < length (st_rows st)" "m_upsert u < length (st_upserts st)"
    and "default_row kw (m_upsert u) st = (st1, None)"
    and "list_all (agrees kw (st_rows st ! m_current u) (st_upserts st1 ! m_upsert u)) flds"
  shows "update_one db table kw flds u st = (st1, None)"
  using assms default_row_frame[OF assms(3)] diff_fields_agrees[OF assms(4), of "([], [])"]
  by (simp add: update_one_def)

lemma run_defaults_frame:
  "st_out (run_defaults kw ms st) = st_out st \<and> st_store (run_defaults kw ms st) = st_store st \<and>
   st_rows (run_defaults kw ms st) = st_rows st \<and>
   length (st_upserts (run_defaults kw ms st)) = length (st_upserts st)"
proof (induction ms arbitrary: st)
  case Nil
  then show ?case by simp
next
  case (Cons u ms)
  obtain sd e where d: "default_row kw (m_upsert u) st = (sd, e)"
    by (cases "default_row kw (m_upsert u) st")
  from default_row_frame[OF d] Cons.IH[of sd] d show ?case by simp
qed

lemma updates_loop_all_agree:
  "\<forall>m\<in>set ms. m_current m < length (st_rows st) \<and> m_upsert m < length (st_upserts st) \<Longrightarrow>
   all_agree kw flds ms st \<Longrightarrow>
   updates_loop db table kw flds ms st = (run_defaults kw ms st, None)"
proof (induction ms arbitrary: st)
  case Nil
  then show ?case by simp
next
  case (Cons u ms)
  from Cons.prems(1) have r: "m_current u < length (st_rows st)" "m_upsert u < length (st_upserts st)"
    by simp_all
  from Cons.prems(2) obtain sd where
    d: "default_row kw (m_upsert u) st = (sd, None)" and
    a: "list_all (agrees kw (st_rows st ! m_current u) (st_upserts sd ! m_upsert u)) flds" and
    rest: "all_agree kw flds ms sd"
    by (auto split: prod.splits option.splits)
  from update_one_noop[OF r d a] have one: "update_one db table kw flds u st = (sd, None)" .
  from default_row_frame[OF d] Cons.prems(1)
  have "\<forall>m\<in>set ms. m_current m < length (st_rows sd) \<and> m_upsert m < length (st_upserts sd)"
    by simp
  from Cons.IH[OF this rest] one d show ?case by simp
qed

text \<open>
  C3, as it holds of the code. For a match record whose desired row, after its defaults,
  agrees with the current row on every non-ignored field, the change set is empty: nothing
  is printed, the store is not called. And an invocation that reads a table state in which
  every match record agrees in this way, after its defaults, and every desired row is
  matched makes no update and no insert: the update phase prints nothing, does not call
  the store, and changes the state only by the defaults it writes into the desired rows,
  and the invocation is its delete phase alone. That the table state after a first run is
  of this kind is not a property of this code.
\<close>

theorem noop_update:
  "(m_current u < length (st_rows st) \<and> m_upsert u < length (st_upserts st) \<and>
    default_row kw (m_upsert u) st = (sd, None) \<and>
    list_all (agrees kw (st_rows st ! m_current u) (st_upserts sd ! m_upsert u)) flds
    \<longrightarrow> update_one db table kw flds u st = (sd, None) \<and>
        st_out sd = st_out st \<and> st_store sd = st_store st) \<and>
   (get_current db s table (parse_keys ka) kw = Inr cur \<and>
    get_to_update cur upserts (parse_keys ka) kw = Inr ms \<and>
    db_get_fields db s table = Inr allflds \<and>
    all_agree kw (filter (\<lambda>x. x \<notin> set (kw_ignore kw)) allflds) ms
      ((init_state s upserts)\<lparr>st_rows := cur_rows cur\<rparr>) \<and>
    un_upserts (get_unmatched iter ms (cur_rows cur) upserts) = []
    \<longrightarrow> do_updates db table ms kw ((init_state s upserts)\<lparr>st_rows := cur_rows cur\<rparr>)
          = (run_defaults kw ms ((init_state s upserts)\<lparr>st_rows := cur_rows cur\<rparr>), None) \<and>
        st_out (run_defaults kw ms ((init_state s upserts)\<lparr>st_rows := cur_rows cur\<rparr>)) = [] \<and>
        st_store (run_defaults kw ms ((init_state s upserts)\<lparr>st_rows := cur_rows cur\<rparr>)) = s \<and>
        upsert iter db s table ka upserts kw =
          (case (if kw_delete kw
                 then do_deletes db table (parse_keys ka)
                        (un_current (get_unmatched iter ms (cur_rows cur) upserts)) kw
                        (run_defaults kw ms ((init_state s upserts)\<lparr>st_rows := cur_rows cur\<rparr>))
                 else (run_defaults kw ms ((init_state s upserts)\<lparr>st_rows := cur_rows cur\<rparr>),
                       None)) of
             (st4, Some e) \<Rightarrow> (st4, Inl e)
           | (st4, None) \<Rightarrow> (st4, Inr (if kw_get_unmatched kw then RRows [] else RTrue))))"
proof (intro conjI impI)
  assume a: "m_current u < length (st_rows st) \<and> m_upsert u < length (st_upserts st) \<and>
    default_row kw (m_upsert u) st = (sd, None) \<and>
    list_all (agrees kw (st_rows st ! m_current u) (st_upserts sd ! m_upsert u)) flds"
  then show "update_one db table kw flds u st = (sd, None)"
    using update_one_noop by blast
  from a default_row_frame show "st_out sd = st_out st" by blast
  from a default_row_frame show "st_store sd = st_store st" by blast
next
  let ?st1 = "(init_state s upserts)\<lparr>st_rows := cur_rows cur\<rparr>"
  let ?flds = "filter (\<lambda>x. x \<notin> set (kw_ignore kw)) allflds"
  let ?st2 = "run_defaults kw ms ?st1"
  assume b: "get_current db s table (parse_keys ka) kw = Inr cur \<and>
    get_to_update cur upserts (parse_keys ka) kw = Inr ms \<and>
    db_get_fields db s table = Inr allflds \<and>
    all_agree kw ?flds ms ?st1 \<and>
    un_upserts (get_unmatched iter ms (cur_rows cur) upserts) = []"
  then have gc: "get_current db s table (parse_keys ka) kw = Inr cur"
    and gu: "get_to_update cur upserts (parse_keys ka) kw = Inr ms"
    and gf: "db_get_fields db s table = Inr allflds"
    and ag: "all_agree kw ?flds ms ?st1"
    and un: "un_upserts (get_unmatched iter ms (cur_rows cur) upserts) = []"
    by simp_all
  have "\<forall>m\<in>set ms. m_current m < length (st_rows ?st1) \<and> m_upsert m < length (st_upserts ?st1)"
    using get_to_update_range[OF gc gu] by (simp add: init_state_def)
  from updates_loop_all_agree[OF this ag]
  have "updates_loop db table kw ?flds ms ?st1 = (?st2, None)" .
  with gf show du: "do_updates db table ms kw ?st1 = (?st2, None)"
    by (simp add: do_updates_def init_state_def)
  note f = run_defaults_frame[of kw ms ?st1]
  from f show "st_out ?st2 = []" by (simp add: init_state_def)
  from f show "st_store ?st2 = s" by (simp add: init_state_def)
  from f have u: "get_unmatched iter ms (st_rows ?st2) (st_upserts ?st2)
                  = get_unmatched iter ms (cur_rows cur) upserts"
    by (intro get_unmatched_lengths) (simp_all add: init_state_def)
  have di: "(if \<not> kw_noinsert kw
              then do_inserts db table
                     (un_upserts (get_unmatched iter ms (st_rows ?st2) (st_upserts ?st2))) kw ?st2
              else (?st2, None)) = (?st2, None)"
    unfolding u un by simp
  show "upsert iter db s table ka upserts kw =
          (case (if kw_delete kw
                 then do_deletes db table (parse_keys ka)
                        (un_current (get_unmatched iter ms (cur_rows cur) upserts)) kw ?st2
                 else (?st2, None)) of
             (st4, Some e) \<Rightarrow> (st4, Inl e)
           | (st4, None) \<Rightarrow> (st4, Inr (if kw_get_unmatched kw then RRows [] else RTrue)))"
  proof (cases "if kw_delete kw
                 then do_deletes db table (parse_keys ka)
                        (un_current (get_unmatched iter ms (cur_rows cur) upserts)) kw ?st2
                 else (?st2, None)")
    case (Pair st4 e4)
    have dd: "(if kw_delete kw
              then do_deletes db table (parse_keys ka)
                     (un_current (get_unmatched iter ms (st_rows ?st2) (st_upserts ?st2))) kw ?st2
              else (?st2, None)) = (st4, e4)"
      unfolding u by (rule Pair)
    show ?thesis
    proof (cases e4)
      case None
      from upsert_returns[OF gc gu du di dd[unfolded None]] u un Pair None
      show ?thesis by simp
    next
      case (Some e)
      have "upsert iter db s table ka upserts kw = (st4, Inl e)"
        unfolding upsert_def Let_def gc gu sum.case du prod.case option.case di dd Some
        by (rule refl)
      with Pair Some show ?thesis by simp
    qed
  qed
qed

theorem noop_update_witness:
  "update_one (mem_db [''id'', ''name'']) ''t''
     (kw0\<lparr>kw_default := [(''name'', (const_a, []))]\<rparr>) [''id'', ''name'']
     \<lparr>m_key = [''id''], m_current = 0, m_upsert = 0\<rparr>
     \<lparr>st_store = [[(''id'', VInt 1), (''name'', VStr ''a'')]],
      st_rows = [[(''id'', VInt 1), (''name'', VStr ''a'')]],
      st_upserts = [[(''id'', VInt 1)]], st_out = []\<rparr>
   = (\<lparr>st_store = [[(''id'', VInt 1), (''name'', VStr ''a'')]],
       st_rows = [[(''id'', VInt 1), (''name'', VStr ''a'')]],
       st_upserts = [[(''id'', VInt 1), (''name'', VStr ''a'')]], st_out = []\<rparr>, None) \<and>
   upsert insertion_order (mem_db [''id'', ''name'']) [[(''id'', VInt 1), (''name'', VStr ''a'')]] ''t''
     (Single (Scalar ''id'')) [[(''id'', VInt 1)]]
     (kw0\<lparr>kw_default := [(''name'', (const_a, []))]\<rparr>)
   = (\<lparr>st_store = [[(''id'', VInt 1), (''name'', VStr ''a'')]],
       st_rows = [[(''id'', VInt 1), (''name'', VStr ''a'')]],
       st_upserts = [[(''id'', VInt 1), (''name'', VStr ''a'')]], st_out = []\<rparr>, Inr RTrue)"
proof -
  let ?db = "mem_db [''id'', ''name'']"
  let ?s = "[[(''id'', VInt 1), (''name'', VStr ''a'')]]"
  let ?ups = "[[(''id'', VInt 1)]]"
  let ?ka = "Single (Scalar ''id'')"
  let ?kw = "kw0\<lparr>kw_default := [(''name'', (const_a, []))]\<rparr> :: (row list) kwargs"
  let ?cur = "\<lparr>cur_rows = ?s, cur_tups = [([VInt 1], [0])]\<rparr>"
  let ?u = "\<lparr>m_key = [''id''], m_current = 0, m_upsert = 0\<rparr>"
  let ?st = "\<lparr>st_store = ?s, st_rows = ?s, st_upserts = ?ups, st_out = []\<rparr>"
  let ?sd = "\<lparr>st_store = ?s, st_rows = ?s, st_upserts = ?s, st_out = []\<rparr>"
  note T = noop_update[where iter = insertion_order and db = ?db and s = ?s and table = "''t''"
      and ka = ?ka and kw = ?kw and cur = ?cur and upserts = ?ups and ms = "[?u]"
      and allflds = "[''id'', ''name'']" and u = ?u and st = ?st and sd = ?sd
      and flds = "[''id'', ''name'']"]
  have d: "default_row ?kw 0 ?st = (?sd, None)"
    by (simp add: default_row_def apply_defaults_def get_default_def const_a_def kw0_def)
  have h1: "m_current ?u < length (st_rows ?st) \<and> m_upsert ?u < length (st_upserts ?st) \<and>
    default_row ?kw (m_upsert ?u) ?st = (?sd, None) \<and>
    list_all (agrees ?kw (st_rows ?st ! m_current ?u) (st_upserts ?sd ! m_upsert ?u))
      [''id'', ''name'']"
    using d by (simp add: agrees_def)
  have h2: "get_current ?db ?s ''t'' (parse_keys ?ka) ?kw = Inr ?cur \<and>
    get_to_update ?cur ?ups (parse_keys ?ka) ?kw = Inr [?u] \<and>
    db_get_fields ?db ?s ''t'' = Inr [''id'', ''name''] \<and>
    all_agree ?kw (filter (\<lambda>x. x \<notin> set (kw_ignore ?kw)) [''id'', ''name'']) [?u]
      ((init_state ?s ?ups)\<lparr>st_rows := cur_rows ?cur\<rparr>) \<and>
    un_upserts (get_unmatched insertion_order [?u] (cur_rows ?cur) ?ups) = []"
    using d by (simp add: model_defs agrees_def)
  from T h1 have 1: "update_one ?db ''t'' ?kw [''id'', ''name''] ?u ?st = (?sd, None)"
    by blast
  have rd: "run_defaults ?kw [?u] ((init_state ?s ?ups)\<lparr>st_rows := cur_rows ?cur\<rparr>) = ?sd"
    using d by (simp add: init_state_def)
  from T h2 have "upsert insertion_order ?db ?s ''t'' ?ka ?ups ?kw =
          (case (if kw_delete ?kw
                 then do_deletes ?db ''t'' (parse_keys ?ka)
                        (un_current (get_unmatched insertion_order [?u] (cur_rows ?cur) ?ups)) ?kw
                        (run_defaults ?kw [?u] ((init_state ?s ?ups)\<lparr>st_rows := cur_rows ?cur\<rparr>))
                 else (run_defaults ?kw [?u] ((init_state ?s ?ups)\<lparr>st_rows := cur_rows ?cur\<rparr>),
                       None)) of
             (st4, Some e) \<Rightarrow> (st4, Inl e)
           | (st4, None) \<Rightarrow> (st4, Inr (if kw_get_unmatched ?kw then RRows [] else RTrue)))"
    by blast
  then have 2: "upsert insertion_order ?db ?s ''t'' ?ka ?ups ?kw = (?sd, Inr RTrue)"
    unfolding rd by (simp add: kw0_def)
  from 1 2 show ?thesis by simp
qed

text \<open>
  With \<open>nonullkeys\<close> set, a desired row with a null key is never matched: the first run
  inserts it into the empty table, and the second run, on the table the first one left,
  inserts it again.
\<close>

theorem second_run_inserts_counterexample:
  "st_out (fst (upsert insertion_order (mem_db [''id'', ''name'']) [] ''t'' (Single (Scalar ''id''))
       [[(''id'', VNone), (''name'', VStr ''a'')]] (kw0\<lparr>kw_nonullkeys := True\<rparr>)))
   = [Insert [(''id'', VNone), (''name'', VStr ''a'')] ''t''] \<and>
   st_out (fst (upsert insertion_order (mem_db [''id'', ''name''])
       (st_store (fst (upsert insertion_order (mem_db [''id'', ''name'']) [] ''t'' (Single (Scalar ''id''))
          [[(''id'', VNone), (''name'', VStr ''a'')]] (kw0\<lparr>kw_nonullkeys := True\<rparr>))))
       ''t'' (Single (Scalar ''id''))
       [[(''id'', VNone), (''name'', VStr ''a'')]] (kw0\<lparr>kw_nonullkeys := True\<rparr>)))
   = [Insert [(''id'', VNone), (''name'', VStr ''a'')] ''t'']"
  by (simp add: model_defs)

subsection \<open>The hook in dry-run\<close>

lemma hook_calls_append: "hook_calls (xs @ ys) = hook_calls xs @ hook_calls ys"
  by (induction xs rule: hook_calls.induct) auto

lemma before_hook_dry:
  "kw_dryrun kw \<Longrightarrow>
   before_hook kw r st =
     (st, case kw_before_insert kw of
            None \<Rightarrow> None
          | Some (h, bargs) \<Rightarrow>
              (case resolve_args r bargs of Inl e \<Rightarrow> Some e | Inr args \<Rightarrow> None))"
  by (simp add: before_hook_def split: option.splits prod.splits sum.splits)

lemma insert_one_dry:
  assumes "kw_dryrun kw" and "insert_one db table kw i st = (st', err)"
  shows "hook_calls (st_out st') = hook_calls (st_out st) \<and> st_store st' = st_store st"
proof (cases "i < length (st_upserts st)")
  case False
  with assms show ?thesis by (auto simp: insert_one_def)
next
  case True
  obtain st1 e1 where d: "default_row kw i st = (st1, e1)"
    by (cases "default_row kw i st")
  note f1 = default_row_frame[OF d]
  show ?thesis
  proof (cases e1)
    case (Some e)
    with assms True d f1 show ?thesis by (auto simp: insert_one_def)
  next
    case None
    obtain e2 where b: "before_hook kw (st_upserts st1 ! i) st1 = (st1, e2)"
      using before_hook_dry[OF assms(1)] by blast
    show ?thesis
    proof (cases e2)
      case (Some e)
      with assms True d None b f1 show ?thesis by (auto simp: insert_one_def)
    next
      case n2: None
      with assms True d None b
      have "run_insert db table kw (st_upserts st1 ! i) st1 = (st', err)"
        by (simp add: insert_one_def)
      with assms(1) f1 show ?thesis
        by (auto simp: run_insert_def hook_calls_append)
    qed
  qed
qed

lemma do_inserts_dry:
  "kw_dryrun kw \<Longrightarrow> do_inserts db table js kw st = (st', err) \<Longrightarrow>
   hook_calls (st_out st') = hook_calls (st_out st) \<and> st_store st' = st_store st"
proof (induction js arbitrary: st)
  case Nil
  then show ?case by simp
next
  case (Cons i js)
  obtain st1 e1 where o: "insert_one db table kw i st = (st1, e1)"
    by (cases "insert_one db table kw i st")
  note f = insert_one_dry[OF Cons.prems(1) o]
  show ?case
  proof (cases e1)
    case (Some e)
    with Cons.prems o f show ?thesis by auto
  next
    case None
    with Cons.prems o have "do_inserts db table js kw st1 = (st', err)" by simp
    from Cons.IH[OF Cons.prems(1) this] f show ?thesis by simp
  qed
qed

text \<open>
  C7, as it holds of the code. In dry-run the insert phase never calls the hook and never
  touches the store; the hook's arguments are resolved all the same, so an argument that
  refers to a field the row does not hold raises \<open>KeyError\<close> in dry-run too. Outside
  dry-run the hook is called with the resolved arguments.
\<close>

theorem dryrun_hook:
  "(kw_dryrun kw \<longrightarrow>
      hook_calls (st_out (fst (do_inserts db table js kw st))) = hook_calls (st_out st) \<and>
      st_store (fst (do_inserts db table js kw st)) = st_store st \<and>
      before_hook kw r st =
        (st, case kw_before_insert kw of
               None \<Rightarrow> None
             | Some (h, bargs) \<Rightarrow>
                 (case resolve_args r bargs of Inl e \<Rightarrow> Some e | Inr args \<Rightarrow> None))) \<and>
   (\<not> kw_dryrun kw \<and> kw_before_insert kw = Some (h, bargs) \<and> resolve_args r bargs = Inr args \<longrightarrow>
      before_hook kw r st =
        (emit [Hook args] (st\<lparr>st_store := fst (h (st_store st) args)\<rparr>),
         snd (h (st_store st) args)))"
proof (intro conjI impI)
  assume d: "kw_dryrun kw"
  obtain st' err where o: "do_inserts db table js kw st = (st', err)"
    by (cases "do_inserts db table js kw st")
  from do_inserts_dry[OF d o] o
  show "hook_calls (st_out (fst (do_inserts db table js kw st))) = hook_calls (st_out st)"
    and "st_store (fst (do_inserts db table js kw st)) = st_store st"
    by simp_all
  from before_hook_dry[OF d]
  show "before_hook kw r st =
        (st, case kw_before_insert kw of
               None \<Rightarrow> None
             | Some (h, bargs) \<Rightarrow>
                 (case resolve_args r bargs of Inl e \<Rightarrow> Some e | Inr args \<Rightarrow> None))" .
next
  assume "\<not> kw_dryrun kw \<and> kw_before_insert kw = Some (h, bargs) \<and> resolve_args r bargs = Inr args"
  then show "before_hook kw r st =
        (emit [Hook args] (st\<lparr>st_store := fst (h (st_store st) args)\<rparr>),
         snd (h (st_store st) args))"
    by (simp add: before_hook_def split: prod.splits)
qed

theorem dryrun_hook_witness:
  "hook_calls (st_out (fst (do_inserts (mem_db [''id'', ''name'']) ''t'' [0]
       (kw0\<lparr>kw_dryrun := True, kw_before_insert := Some (quiet_hook, [VStr ''*name''])\<rparr>)
       \<lparr>st_store = [], st_rows = [],
        st_upserts = [[(''id'', VInt 1), (''name'', VStr ''a'')]], st_out = []\<rparr>))) = [] \<and>
   before_hook (kw0\<lparr>kw_before_insert := Some (quiet_hook, [VStr ''*name''])\<rparr>)
       [(''id'', VInt 1), (''name'', VStr ''a'')]
       \<lparr>st_store = [], st_rows = [],
        st_upserts = [[(''id'', VInt 1), (''name'', VStr ''a'')]], st_out = []\<rparr>
   = (\<lparr>st_store = [], st_rows = [],
       st_upserts = [[(''id'', VInt 1), (''name'', VStr ''a'')]],
       st_out = [Hook [VStr ''a'']]\<rparr>, None)"
proof -
  let ?db = "mem_db [''id'', ''name'']"
  let ?r = "[(''id'', VInt 1), (''name'', VStr ''a'')]"
  let ?st = "\<lparr>st_store = [], st_rows = [], st_upserts = [?r], st_out = []\<rparr> :: (row list) state"
  let ?dry = "kw0\<lparr>kw_dryrun := True, kw_before_insert := Some (quiet_hook, [VStr ''*name''])\<rparr>"
  let ?live = "kw0\<lparr>kw_before_insert := Some (quiet_hook, [VStr ''*name''])\<rparr>"
  have d: "kw_dryrun ?dry" by simp
  have l: "\<not> kw_dryrun ?live \<and> kw_before_insert ?live = Some (quiet_hook, [VStr ''*name'']) \<and>
           resolve_args ?r [VStr ''*name''] = Inr [VStr ''a'']"
    by (simp add: kw0_def getitem_def)
  from dryrun_hook[where kw = ?dry and db = ?db and table = "''t''" and js = "[0]" and st = ?st] d
  have 1: "hook_calls (st_out (fst (do_inserts ?db ''t'' [0] ?dry ?st))) = hook_calls (st_out ?st)"
    by blast
  from dryrun_hook[where kw = ?live and r = ?r and st = ?st and h = quiet_hook
      and bargs = "[VStr ''*name'']" and args = "[VStr ''a'']"] l
  have 2: "before_hook ?live ?r ?st =
        (emit [Hook [VStr ''a'']] (?st\<lparr>st_store := fst (quiet_hook (st_store ?st) [VStr ''a''])\<rparr>),
         snd (quiet_hook (st_store ?st) [VStr ''a'']))"
    by blast
  from 1 2 show ?thesis by (simp add: emit_def quiet_hook_def)
qed

text \<open>
  A dry-run whose hook argument refers to a field the desired row does not hold ends with
  \<open>KeyError\<close>: the arguments are resolved in dry-run.
\<close>

theorem dryrun_resolves_args_counterexample:
  "snd (upsert insertion_order (mem_db [''id'']) [] ''t'' (Single (Scalar ''id'')) [[(''id'', VInt 1)]]
     (kw0\<lparr>kw_dryrun := True, kw_before_insert := Some (quiet_hook, [VStr ''*parent''])\<rparr>))
   = Inl (KeyError ''parent'')"
  by (simp add: model_defs)

subsection \<open>Uniqueness violations on insert\<close>

lemma insert_rows_append: "insert_rows (xs @ ys) = insert_rows xs @ insert_rows ys"
  by (induction xs rule: insert_rows.induct) auto

lemma run_insert_caught:
  "\<not> kw_dryrun kw \<Longrightarrow> db_insert db (st_store st) r table = (s', Some UniqueViolation) \<Longrightarrow>
   run_insert db table kw r st =
     (emit [Insert r table, Print_exc UniqueViolation] (st\<lparr>st_store := s'\<rparr>), None)"
  by (simp add: run_insert_def)

lemma run_insert_isolated:
  assumes "\<not> kw_dryrun kw"
    and "\<forall>s r t. snd (db_insert db s r t) = None \<or> snd (db_insert db s r t) = Some UniqueViolation"
  shows "\<exists>st'. run_insert db table kw r st = (st', None) \<and>
           insert_rows (st_out st') = insert_rows (st_out st) @ [r]"
proof -
  obtain s' e where i: "db_insert db (st_store st) r table = (s', e)"
    by (cases "db_insert db (st_store st) r table")
  with assms(2) have "e = None \<or> e = Some UniqueViolation"
    by (metis snd_conv)
  with assms(1) i show ?thesis
    by (auto simp: run_insert_def insert_rows_append)
qed

lemma before_hook_quiet:
  assumes "\<forall>h bargs. kw_before_insert kw = Some (h, bargs) \<longrightarrow> (\<forall>s a. snd (h s a) = None)"
    and "case kw_before_insert kw of None \<Rightarrow> True
         | Some (h, bargs) \<Rightarrow> (case resolve_args r bargs of Inl e \<Rightarrow> False | Inr args \<Rightarrow> True)"
  shows "\<exists>st'. before_hook kw r st = (st', None) \<and>
           insert_rows (st_out st') = insert_rows (st_out st)"
proof (cases "kw_before_insert kw")
  case None
  then show ?thesis by (simp add: before_hook_def)
next
  case (Some hb)
  obtain h bargs where hb: "hb = (h, bargs)" by (cases hb)
  from assms(2) Some hb obtain args where r: "resolve_args r bargs = Inr args"
    by (auto split: sum.splits)
  from assms(1) Some hb have q: "\<And>s a. snd (h s a) = None" by blast
  show ?thesis
  proof (cases "kw_dryrun kw")
    case True
    with Some hb r show ?thesis by (simp add: before_hook_def)
  next
    case False
    obtain s' e where c: "h (st_store st) args = (s', e)" by (cases "h (st_store st) args")
    with q[of "st_store st" args] have "e = None" by simp
    with False Some hb r c show ?thesis
      by (simp add: before_hook_def insert_rows_append)
  qed
qed

lemma insert_one_isolated:
  assumes dr: "\<not> kw_dryrun kw"
    and A1: "\<forall>s r t. snd (db_insert db s r t) = None \<or> snd (db_insert db s r t) = Some UniqueViolation"
    and hq: "\<forall>h bargs. kw_before_insert kw = Some (h, bargs) \<longrightarrow> (\<forall>s a. snd (h s a) = None)"
    and i: "i < length (st_upserts st)" and pr: "prepares kw (st_upserts st ! i)"
  shows "\<exists>st'. insert_one db table kw i st = (st', None) \<and>
           insert_rows (st_out st') = insert_rows (st_out st) @ [st_upserts st' ! i]"
proof -
  obtain r' e1 where sd: "apply_defaults kw (st_upserts st ! i) = (r', e1)"
    by (cases "apply_defaults kw (st_upserts st ! i)")
  with pr have e1: "e1 = None"
    by (cases e1) (simp_all add: prepares_def)
  let ?st1 = "st\<lparr>st_upserts := (st_upserts st)[i := r']\<rparr>"
  from sd e1 have d: "default_row kw i st = (?st1, None)" by (simp add: default_row_def)
  from i have n1: "st_upserts ?st1 ! i = r'" by simp
  from pr sd e1 have
    "case kw_before_insert kw of None \<Rightarrow> True
     | Some (h, bargs) \<Rightarrow> (case resolve_args r' bargs of Inl e \<Rightarrow> False | Inr args \<Rightarrow> True)"
    by (simp add: prepares_def)
  from before_hook_quiet[OF hq this, of ?st1] obtain st2 where
    b: "before_hook kw r' ?st1 = (st2, None)" and
    o2: "insert_rows (st_out st2) = insert_rows (st_out st)"
    by auto
  from before_hook_frame[OF b] n1 have n2: "st_upserts st2 ! i = r'" by simp
  from run_insert_isolated[OF dr A1, of table r' st2] obtain st3 where
    r: "run_insert db table kw r' st2 = (st3, None)" and
    o3: "insert_rows (st_out st3) = insert_rows (st_out st2) @ [r']"
    by auto
  from run_insert_frame[OF r] n2 have n3: "st_upserts st3 ! i = r'" by simp
  from i d n1 b n2 r have "insert_one db table kw i st = (st3, None)"
    by (simp add: insert_one_def)
  with o2 o3 n3 show ?thesis by simp
qed

lemma do_inserts_isolated:
  assumes dr: "\<not> kw_dryrun kw"
    and A1: "\<forall>s r t. snd (db_insert db s r t) = None \<or> snd (db_insert db s r t) = Some UniqueViolation"
    and hq: "\<forall>h bargs. kw_before_insert kw = Some (h, bargs) \<longrightarrow> (\<forall>s a. snd (h s a) = None)"
  shows "distinct js \<Longrightarrow>
         \<forall>j\<in>set js. j < length (st_upserts st) \<and> prepares kw (st_upserts st ! j) \<Longrightarrow>
         \<exists>st'. do_inserts db table js kw st = (st', None) \<and>
           insert_rows (st_out st') = insert_rows (st_out st) @ map ((!) (st_upserts st')) js"
proof (induction js arbitrary: st)
  case Nil
  then show ?case by simp
next
  case (Cons i js)
  from Cons.prems have i: "i < length (st_upserts st)" "prepares kw (st_upserts st ! i)"
    and ni: "i \<notin> set js" and dj: "distinct js"
    by simp_all
  from insert_one_isolated[OF dr A1 hq i, of table] obtain st1 where
    o: "insert_one db table kw i st = (st1, None)" and
    o1: "insert_rows (st_out st1) = insert_rows (st_out st) @ [st_upserts st1 ! i]"
    by auto
  note f = insert_one_frame[OF o]
  have "\<forall>j\<in>set js. j < length (st_upserts st1) \<and> prepares kw (st_upserts st1 ! j)"
  proof
    fix j assume j: "j \<in> set js"
    with ni have "j \<noteq> i" by auto
    with f have "st_upserts st1 ! j = st_upserts st ! j" by simp
    with Cons.prems(2) j f show "j < length (st_upserts st1) \<and> prepares kw (st_upserts st1 ! j)"
      by simp
  qed
  from Cons.IH[OF dj this] obtain st' where
    r: "do_inserts db table js kw st1 = (st', None)" and
    o2: "insert_rows (st_out st') = insert_rows (st_out st1) @ map ((!) (st_upserts st')) js"
    by auto
  from do_inserts_frame[OF r] ni have "st_upserts st' ! i = st_upserts st1 ! i" by simp
  with o r o1 o2 show ?case by simp
qed

lemma run_delete_quiet:
  assumes "\<forall>s q a. snd (db_sql db s q a) = None"
  shows "\<exists>st'. run_delete db kw q a st = (st', None) \<and>
           insert_rows (st_out st') = insert_rows (st_out st)"
proof -
  obtain s' e where c: "db_sql db (st_store st) q a = (s', e)"
    by (cases "db_sql db (st_store st) q a")
  with assms have "e = None" by (metis snd_conv)
  with c show ?thesis by (simp add: run_delete_def insert_rows_append)
qed

lemma delete_keys_quiet:
  assumes q: "\<forall>s q a. snd (db_sql db s q a) = None"
  shows "i < length (st_rows st) \<Longrightarrow> list_all (has_fields (st_rows st ! i)) keys \<Longrightarrow>
         \<exists>st'. delete_keys db table kw i keys st = (st', None) \<and>
           insert_rows (st_out st') = insert_rows (st_out st)"
proof (induction keys arbitrary: st)
  case Nil
  then show ?case by simp
next
  case (Cons key keys)
  let ?r = "st_rows st ! i"
  from Cons.prems have hf: "has_fields ?r key" and rest: "list_all (has_fields ?r) keys"
    by simp_all
  from to_tup_total[OF hf] obtain tup where tt: "to_tup ?r key = Inr tup" by blast
  note kp = key_preds_has_fields[OF hf]
  let ?q = "delete_query table ((if has_where kw then [where_str kw] else [''1=1'']) @
              map (\<lambda>f. pred f (get_or_none ?r f)) key)"
  from run_delete_quiet[OF q, of kw ?q "map (get_or_none ?r) key" st] obtain st1 where
    r: "run_delete db kw ?q (map (get_or_none ?r) key) st = (st1, None)" and
    o1: "insert_rows (st_out st1) = insert_rows (st_out st)"
    by auto
  from run_delete_frame[OF r] have fr: "st_rows st1 = st_rows st" by simp
  with Cons.prems rest have "i < length (st_rows st1)" "list_all (has_fields (st_rows st1 ! i)) keys"
    by simp_all
  from Cons.IH[OF this] obtain st' where
    d: "delete_keys db table kw i keys st1 = (st', None)" and
    o2: "insert_rows (st_out st') = insert_rows (st_out st1)"
    by auto
  from Cons.prems(1) tt kp r d have "delete_keys db table kw i (key # keys) st = (st', None)"
    by (simp add: Let_def)
  with o1 o2 show ?case by simp
qed

lemma do_deletes_quiet:
  assumes q: "\<forall>s q a. snd (db_sql db s q a) = None"
  shows "\<forall>i\<in>set js. i < length (st_rows st) \<and> list_all (has_fields (st_rows st ! i)) keys \<Longrightarrow>
         \<exists>st'. do_deletes db table keys js kw st = (st', None) \<and>
           insert_rows (st_out st') = insert_rows (st_out st) \<and>
           st_upserts st' = st_upserts st"
proof (induction js arbitrary: st)
  case Nil
  then show ?case by simp
next
  case (Cons i js)
  then have i: "i < length (st_rows st)" "list_all (has_fields (st_rows st ! i)) keys" by simp_all
  from delete_keys_quiet[OF q i, of table kw] obtain st1 where
    d: "delete_keys db table kw i keys st = (st1, None)" and
    o1: "insert_rows (st_out st1) = insert_rows (st_out st)"
    by auto
  note f = delete_keys_frame[OF d]
  with Cons.prems have
    "\<forall>i\<in>set js. i < length (st_rows st1) \<and> list_all (has_fields (st_rows st1 ! i)) keys"
    by simp
  from Cons.IH[OF this] obtain st' where
    r: "do_deletes db table keys js kw st1 = (st', None)" and
    o2: "insert_rows (st_out st') = insert_rows (st_out st1)" and
    u2: "st_upserts st' = st_upserts st1"
    by auto
  with d o1 f show ?case by simp
qed

text \<open>
  C1, as it holds of the code. In an invocation that reaches the insert phase (not
  \<open>noinsert\<close>, not dry-run) where \<open>db.insert\<close> raises nothing but uniqueness violations,
  the defaults and hook arguments of the unmatched desired rows resolve, the hook does not
  raise, and (with \<open>delete\<close>) \<open>db.sql\<close> does not raise: a \<open>UniqueViolation\<close> of an
  insert is caught and printed; every unmatched desired row gets its \<open>db.insert\<close> call, in
  order; and the call returns instead of raising. What it returns is \<open>True\<close>, or, when
  \<open>get_unmatched\<close> is set, the list of the unmatched desired rows.
\<close>

theorem insert_isolation:
  assumes gc: "get_current db s table (parse_keys ka) kw = Inr cur"
    and gu: "get_to_update cur upserts (parse_keys ka) kw = Inr ms"
    and du: "do_updates db table ms kw ((init_state s upserts)\<lparr>st_rows := cur_rows cur\<rparr>)
               = (st2, None)"
    and ni: "\<not> kw_noinsert kw" and dr: "\<not> kw_dryrun kw"
    and A1: "\<forall>s r t. snd (db_insert db s r t) = None \<or> snd (db_insert db s r t) = Some UniqueViolation"
    and hq: "\<forall>h bargs. kw_before_insert kw = Some (h, bargs) \<longrightarrow> (\<forall>s a. snd (h s a) = None)"
    and pr: "\<forall>j\<in>set (un_upserts (get_unmatched iter ms (cur_rows cur) upserts)).
               prepares kw (st_upserts st2 ! j)"
    and dq: "kw_delete kw \<longrightarrow> (\<forall>s q a. snd (db_sql db s q a) = None)"
    and so: "set_order iter"
  shows "(db_insert db (st_store st) r table = (s', Some UniqueViolation) \<longrightarrow>
            run_insert db table kw r st =
              (emit [Insert r table, Print_exc UniqueViolation] (st\<lparr>st_store := s'\<rparr>), None)) \<and>
         (\<exists>st'. upsert iter db s table ka upserts kw =
                  (st', Inr (if kw_get_unmatched kw
                             then RRows (map ((!) (st_upserts st'))
                                      (un_upserts (get_unmatched iter ms (cur_rows cur) upserts)))
                             else RTrue)) \<and>
                insert_rows (st_out st') =
                  insert_rows (st_out st2) @
                  map ((!) (st_upserts st')) (un_upserts (get_unmatched iter ms (cur_rows cur) upserts)))"
proof
  show "db_insert db (st_store st) r table = (s', Some UniqueViolation) \<longrightarrow>
            run_insert db table kw r st =
              (emit [Insert r table, Print_exc UniqueViolation] (st\<lparr>st_store := s'\<rparr>), None)"
    using run_insert_caught[OF dr] by blast
next
  let ?keys = "parse_keys ka"
  let ?un = "get_unmatched iter ms (cur_rows cur) upserts"
  let ?G = "\<exists>st'. upsert iter db s table ka upserts kw =
                  (st', Inr (if kw_get_unmatched kw
                             then RRows (map ((!) (st_upserts st')) (un_upserts ?un))
                             else RTrue)) \<and>
                insert_rows (st_out st') =
                  insert_rows (st_out st2) @ map ((!) (st_upserts st')) (un_upserts ?un)"
  from do_updates_frame[OF du]
  have f2: "st_rows st2 = cur_rows cur" "length (st_upserts st2) = length upserts"
    by (simp_all add: init_state_def)
  have un2: "get_unmatched iter ms (st_rows st2) (st_upserts st2) = ?un"
    by (rule get_unmatched_lengths) (simp_all add: f2)
  from so have dj: "distinct (un_upserts ?un)" by (simp add: get_unmatched_def set_order_def)
  have "\<forall>j\<in>set (un_upserts ?un). j < length (st_upserts st2) \<and> prepares kw (st_upserts st2 ! j)"
  proof
    fix j assume j: "j \<in> set (un_upserts ?un)"
    with so have "j < length upserts" by (simp add: get_unmatched_def set_order_def)
    with pr j f2 show "j < length (st_upserts st2) \<and> prepares kw (st_upserts st2 ! j)" by simp
  qed
  from do_inserts_isolated[OF dr A1 hq dj this, of table] obtain st3 where
    di: "do_inserts db table (un_upserts ?un) kw st2 = (st3, None)" and
    o3: "insert_rows (st_out st3) = insert_rows (st_out st2) @ map ((!) (st_upserts st3)) (un_upserts ?un)"
    by blast
  from do_inserts_frame[OF di] f2 have f3: "st_rows st3 = cur_rows cur" by simp
  from ni di un2 have di': "(if \<not> kw_noinsert kw
              then do_inserts db table
                     (un_upserts (get_unmatched iter ms (st_rows st2) (st_upserts st2))) kw st2
              else (st2, None)) = (st3, None)"
    by simp
  show ?G
  proof (cases "kw_delete kw")
    case False
    then have dd: "(if kw_delete kw
              then do_deletes db table ?keys
                     (un_current (get_unmatched iter ms (st_rows st2) (st_upserts st2))) kw st3
              else (st3, None)) = (st3, None)"
      by simp
    from upsert_returns[OF gc gu du di' dd] un2
    have "upsert iter db s table ka upserts kw =
            (st3, Inr (if kw_get_unmatched kw
                       then RRows (map ((!) (st_upserts st3)) (un_upserts ?un)) else RTrue))"
      by simp
    with o3 show ?thesis by blast
  next
    case True
    with dq have q: "\<forall>s q a. snd (db_sql db s q a) = None" by simp
    have "\<forall>i\<in>set (un_current ?un). i < length (st_rows st3) \<and>
            list_all (has_fields (st_rows st3 ! i)) ?keys"
    proof
      fix i assume "i \<in> set (un_current ?un)"
      with so have i: "i < length (cur_rows cur)" by (simp add: get_unmatched_def set_order_def)
      have "list_all (has_fields (cur_rows cur ! i)) ?keys"
        using get_current_has_fields[OF gc i] by (simp add: list_all_iff)
      with i f3 show "i < length (st_rows st3) \<and> list_all (has_fields (st_rows st3 ! i)) ?keys"
        by simp
    qed
    from do_deletes_quiet[OF q this, of table kw] obtain st4 where
      d4: "do_deletes db table ?keys (un_current ?un) kw st3 = (st4, None)" and
      o4: "insert_rows (st_out st4) = insert_rows (st_out st3)" and
      u4: "st_upserts st4 = st_upserts st3"
      by blast
    from True d4 un2 have dd: "(if kw_delete kw
              then do_deletes db table ?keys
                     (un_current (get_unmatched iter ms (st_rows st2) (st_upserts st2))) kw st3
              else (st3, None)) = (st4, None)"
      by simp
    from upsert_returns[OF gc gu du di' dd] un2
    have "upsert iter db s table ka upserts kw =
            (st4, Inr (if kw_get_unmatched kw
                       then RRows (map ((!) (st_upserts st4)) (un_upserts ?un)) else RTrue))"
      by simp
    moreover from o3 o4 u4 have "insert_rows (st_out st4) =
        insert_rows (st_out st2) @ map ((!) (st_upserts st4)) (un_upserts ?un)"
      by simp
    ultimately show ?thesis by blast
  qed
qed

theorem insert_isolation_witness:
  "upsert insertion_order (uniq_db ''email'' [''id'', ''email'']) [[(''id'', VInt 1), (''email'', VStr ''a'')]] ''t''
     (Single (Scalar ''id''))
     [[(''id'', VInt 2), (''email'', VStr ''b'')], [(''id'', VInt 3), (''email'', VStr ''a'')],
      [(''id'', VInt 4), (''email'', VStr ''c'')]] kw0
   = (\<lparr>st_store = [[(''id'', VInt 1), (''email'', VStr ''a'')],
                   [(''id'', VInt 2), (''email'', VStr ''b'')],
                   [(''id'', VInt 4), (''email'', VStr ''c'')]],
       st_rows = [[(''id'', VInt 1), (''email'', VStr ''a'')]],
       st_upserts = [[(''id'', VInt 2), (''email'', VStr ''b'')],
                     [(''id'', VInt 3), (''email'', VStr ''a'')],
                     [(''id'', VInt 4), (''email'', VStr ''c'')]],
       st_out = [Insert [(''id'', VInt 2), (''email'', VStr ''b'')] ''t'',
                 Insert [(''id'', VInt 3), (''email'', VStr ''a'')] ''t'',
                 Print_exc UniqueViolation,
                 Insert [(''id'', VInt 4), (''email'', VStr ''c'')] ''t'']\<rparr>,
      Inr RTrue)"
proof -
  let ?db = "uniq_db ''email'' [''id'', ''email'']"
  let ?s = "[[(''id'', VInt 1), (''email'', VStr ''a'')]]"
  let ?ups = "[[(''id'', VInt 2), (''email'', VStr ''b'')], [(''id'', VInt 3), (''email'', VStr ''a'')],
      [(''id'', VInt 4), (''email'', VStr ''c'')]]"
  let ?ka = "Single (Scalar ''id'')"
  let ?kw = "kw0 :: (row list) kwargs"
  let ?cur = "\<lparr>cur_rows = ?s, cur_tups = [([VInt 1], [0])]\<rparr>"
  let ?st2 = "\<lparr>st_store = ?s, st_rows = ?s, st_upserts = ?ups, st_out = []\<rparr>"
  have gc: "get_current ?db ?s ''t'' (parse_keys ?ka) ?kw = Inr ?cur"
    by (simp add: model_defs)
  have gu: "get_to_update ?cur ?ups (parse_keys ?ka) ?kw = Inr []"
    by (simp add: model_defs)
  have du: "do_updates ?db ''t'' [] ?kw ((init_state ?s ?ups)\<lparr>st_rows := cur_rows ?cur\<rparr>)
              = (?st2, None)"
    by (simp add: model_defs)
  have ni: "\<not> kw_noinsert ?kw" and dr: "\<not> kw_dryrun ?kw" by (simp_all add: kw0_def)
  have A1: "\<forall>s r t. snd (db_insert ?db s r t) = None \<or>
                    snd (db_insert ?db s r t) = Some UniqueViolation"
    by (simp add: uniq_db_def)
  have hq: "\<forall>h bargs. kw_before_insert ?kw = Some (h, bargs) \<longrightarrow> (\<forall>s a. snd (h s a) = None)"
    by (simp add: kw0_def)
  have pr: "\<forall>j\<in>set (un_upserts (get_unmatched insertion_order [] (cur_rows ?cur) ?ups)).
              prepares ?kw (st_upserts ?st2 ! j)"
    by (simp add: get_unmatched_def insertion_order_def prepares_def apply_defaults_def kw0_def)
  have dq: "kw_delete ?kw \<longrightarrow> (\<forall>s q a. snd (db_sql ?db s q a) = None)"
    by (simp add: kw0_def)
  have so: "set_order insertion_order"
    by (simp add: set_order_def insertion_order_def)
  from insert_isolation[OF gc gu du ni dr A1 hq pr dq so] show ?thesis
    by (simp add: model_defs)
qed

text \<open>
  With \<open>get_unmatched\<close> set the same invocation, in which the second insert violates the
  constraint, returns the unmatched desired rows, not \<open>True\<close>.
\<close>

theorem get_unmatched_return_counterexample:
  "upsert insertion_order (uniq_db ''email'' [''id'', ''email'']) [[(''id'', VInt 1), (''email'', VStr ''a'')]] ''t''
     (Single (Scalar ''id''))
     [[(''id'', VInt 2), (''email'', VStr ''b'')], [(''id'', VInt 3), (''email'', VStr ''a'')],
      [(''id'', VInt 4), (''email'', VStr ''c'')]] (kw0\<lparr>kw_get_unmatched := True\<rparr>)
   = (\<lparr>st_store = [[(''id'', VInt 1), (''email'', VStr ''a'')],
                   [(''id'', VInt 2), (''email'', VStr ''b'')],
                   [(''id'', VInt 4), (''email'', VStr ''c'')]],
       st_rows = [[(''id'', VInt 1), (''email'', VStr ''a'')]],
       st_upserts = [[(''id'', VInt 2), (''email'', VStr ''b'')],
                     [(''id'', VInt 3), (''email'', VStr ''a'')],
                     [(''id'', VInt 4), (''email'', VStr ''c'')]],
       st_out = [Insert [(''id'', VInt 2), (''email'', VStr ''b'')] ''t'',
                 Insert [(''id'', VInt 3), (''email'', VStr ''a'')] ''t'',
                 Print_exc UniqueViolation,
                 Insert [(''id'', VInt 4), (''email'', VStr ''c'')] ''t'']\<rparr>,
      Inr (RRows [[(''id'', VInt 2), (''email'', VStr ''b'')],
                  [(''id'', VInt 3), (''email'', VStr ''a'')],
                  [(''id'', VInt 4), (''email'', VStr ''c'')]]))"
  by (simp add: model_defs)

end

